theory Spec2Isabelle
  imports
    Complex_Main
    "HOL-Library.Word"
    "HOL-Library.AList"
    "HOL-Library.Multiset"
    "HOL-Library.Sublist"
begin

unbundle bit_operations_syntax

section \<open>The seeded generator engine of typescript-quickcheck\<close>

text \<open>
  A shallow embedding of \<^verbatim>\<open>src/generator.ts\<close> (the PRNG, the \<^verbatim>\<open>Generator\<close> class
  and the combinators) and of the shrink strategies of the \<^verbatim>\<open>smaller\<close> namespace.

  JavaScript numbers are doubles. The functions modelled here compute on integer-valued
  numbers, and the model carries them as \<open>int\<close>: sums, differences and remainders of
  integers of magnitude at most \<open>2 ^ 53\<close> are exact in double arithmetic, so the model
  agrees with the code on that range, and theorems about numeric arguments state the range.
  The one inexact operation the library performs on such arguments, the product
  \<^verbatim>\<open>float.generate(rng) * magnitude\<close>, is modelled with its rounding (\<open>fmul\<close>).
\<close>

subsection \<open>Numbers\<close>

text \<open>A number that is an integer, or NaN (\<^verbatim>\<open>x % 0\<close>).\<close>

datatype jsnum = Num int | NaN

text \<open>\<^verbatim>\<open>ToInt32\<close>, the conversion of \<^verbatim>\<open>x | 0\<close> and of a store into an \<^verbatim>\<open>Int32Array\<close>.\<close>

definition toInt32 :: "int \<Rightarrow> int" where
  "toInt32 x = sint (word_of_int x :: 32 word)"

text \<open>
  \<^verbatim>\<open>a % b\<close> on integers: the remainder of the truncating division (it has the sign of
  the dividend), NaN when the divisor is zero.
\<close>

definition js_rem :: "int \<Rightarrow> int \<Rightarrow> jsnum" where
  "js_rem a b = (if b = 0 then NaN else Num (sgn a * (\<bar>a\<bar> mod \<bar>b\<bar>)))"

text \<open>\<^verbatim>\<open>a + b\<close> with an integer right operand: NaN stays NaN.\<close>

fun js_plus :: "jsnum \<Rightarrow> int \<Rightarrow> jsnum" where
  "js_plus (Num a) b = Num (a + b)"
| "js_plus NaN b = NaN"

text \<open>\<^verbatim>\<open>a > b\<close>: every comparison with NaN is false.\<close>

fun js_gt :: "int \<Rightarrow> jsnum \<Rightarrow> bool" where
  "js_gt a (Num b) = (b < a)"
| "js_gt a NaN = False"

text \<open>
  Rounding of a rational to the nearest double (binary64: 53 significant bits, ties to
  the even significand), for values in the normal range. \<open>bitlen n\<close> is the number of
  bits of a positive integer, and \<open>ilog2 x\<close> the exponent \<open>\<lfloor>log\<^sub>2 x\<rfloor>\<close> of a positive
  \<open>x\<close>, computed from the bit lengths of its numerator and denominator.
\<close>

function bitlen :: "int \<Rightarrow> int" where
  "bitlen n = (if 0 < n then 1 + bitlen (n div 2) else 0)"
  by pat_completeness auto
termination
  by (relation "measure nat") auto

declare bitlen.simps [simp del]

definition ilog2 :: "rat \<Rightarrow> int" where
  "ilog2 x =
     (case quotient_of x of (p, q) \<Rightarrow>
        let t = bitlen p - bitlen q
        in if 2 powi t \<le> x then t else t - 1)"

definition round_half_even :: "rat \<Rightarrow> int" where
  "round_half_even s =
     (let f = \<lfloor>s\<rfloor>; r = s - of_int f
      in if r < 1 / 2 then f else if 1 / 2 < r then f + 1 else if even f then f else f + 1)"

definition round_double :: "rat \<Rightarrow> rat" where
  "round_double x =
     (if x = 0 then 0
      else let e = ilog2 \<bar>x\<bar> - 52
           in sgn x * of_int (round_half_even (\<bar>x\<bar> / 2 powi e)) * 2 powi e)"

text \<open>The double product \<^verbatim>\<open>a * b\<close>: the exact product, rounded.\<close>

definition fmul :: "rat \<Rightarrow> rat \<Rightarrow> rat" where
  "fmul a b = round_double (a * b)"

subsection \<open>The PRNG\<close>

text \<open>
  \<^verbatim>\<open>RngState\<close> is an \<^verbatim>\<open>Int32Array\<close> of four words, \<^verbatim>\<open>rng[0]\<close> to \<^verbatim>\<open>rng[3]\<close>. The code
  updates it in place; the model returns the new state with the result. The intermediate
  \<^verbatim>\<open>e\<close> is a number outside the 32-bit range, but it is exact and only ever stored
  through \<^verbatim>\<open>ToInt32\<close>, which is a ring homomorphism: the arithmetic is that of \<open>32 word\<close>.
  \<^verbatim>\<open><<\<close> is \<open>push_bit\<close>, \<^verbatim>\<open>>>>\<close> is \<open>drop_bit\<close>, and the value returned is \<^verbatim>\<open>rng[3]\<close>
  read as a signed integer.
\<close>

datatype RngState = Int32Array "32 word" "32 word" "32 word" "32 word"

fun randomInt32 :: "RngState \<Rightarrow> int \<times> RngState" where
  "randomInt32 (Int32Array rng0 rng1 rng2 rng3) =
     (let e = rng0 - (push_bit 27 rng1 OR drop_bit (32 - 27) rng1);
          rng0' = rng1 XOR (push_bit 17 rng2 OR drop_bit (32 - 17) rng2);
          rng1' = rng2 + rng3;
          rng2' = rng3 + e;
          rng3' = e + rng0'
      in (sint rng3', Int32Array rng0' rng1' rng2' rng3'))"

text \<open>
  The ambient entropy: the double in \<open>[0, 1)\<close> that a call of \<^verbatim>\<open>Math.random()\<close> returns.
  It is an explicit argument of the two functions that can call \<^verbatim>\<open>Math.random\<close>,
  \<^verbatim>\<open>makeRng\<close> and \<^verbatim>\<open>generate\<close>.
\<close>

type_synonym entropy = rat

text \<open>
  \<^verbatim>\<open>makeRng(seed?)\<close>: the seed, or \<^verbatim>\<open>Math.floor(Math.random() * (2 ** 31 - 1))\<close> when
  there is none, stored in three of the four words, and the loop
  \<^verbatim>\<open>for (let i = 0; i < 20; i++) randomInt32(rng)\<close>.
\<close>

primrec warmup :: "nat \<Rightarrow> RngState \<Rightarrow> RngState" where
  "warmup 0 rng = rng"
| "warmup (Suc n) rng = warmup n (snd (randomInt32 rng))"

definition makeRng :: "int option \<Rightarrow> entropy \<Rightarrow> RngState" where
  "makeRng seed ent =
     (let seed' = (case seed of None \<Rightarrow> \<lfloor>fmul ent (2 ^ 31 - 1)\<rfloor> | Some s \<Rightarrow> s)
      in warmup 20
           (Int32Array 0xf1ea5eed (word_of_int seed') (word_of_int seed') (word_of_int seed')))"

subsection \<open>Generators\<close>

text \<open>
  A draw either returns a value, or throws: \<^verbatim>\<open>new Array\<close> of an invalid length throws a
  \<^verbatim>\<open>RangeError\<close>, a call of \<^verbatim>\<open>generate\<close> on \<^verbatim>\<open>undefined\<close> a \<^verbatim>\<open>TypeError\<close>, and
  \<^verbatim>\<open>frequency\<close> the error of its last line, \<^verbatim>\<open>Unreachable code\<close>. Both leave the state
  advanced. A draw that does not return at all (the loop of \<^verbatim>\<open>suchThat\<close>) is \<open>None\<close>.
  \<open>OffModel\<close> marks the two places where the model has no counterpart for what the
  code would do: an element access at a key that is not an index of the array, in
  \<open>swap_step\<close> (lemma \<open>swap_step_shuffled\<close> shows that the loop of \<^verbatim>\<open>shuffle\<close> never
  gets there), and a size of \<open>2\<^sup>2\<^sup>0\<close> or more where \<open>logsize\<close> is needed.
\<close>

datatype error = RangeError | TypeError | UnreachableCode

datatype 'a outcome = Return 'a RngState | Throw error RngState | OffModel

text \<open>
  \<^verbatim>\<open>Generator<A>\<close> wraps \<^verbatim>\<open>_generate: (rng, size?) => A\<close>; the optional size is a
  non-negative integer or \<open>None\<close> (\<^verbatim>\<open>undefined\<close>).
\<close>

type_synonym 'a Generator = "RngState \<Rightarrow> nat option \<Rightarrow> 'a outcome option"

text \<open>Sequencing of two draws on the one state: an exception or a missing result ends it.\<close>

definition andThen ::
  "'a outcome option \<Rightarrow> ('a \<Rightarrow> RngState \<Rightarrow> 'b outcome option) \<Rightarrow> 'b outcome option" where
  "andThen m k =
     (case m of
        None \<Rightarrow> None
      | Some (Return x rng) \<Rightarrow> k x rng
      | Some (Throw e rng) \<Rightarrow> Some (Throw e rng)
      | Some OffModel \<Rightarrow> Some OffModel)"

text \<open>A \<^verbatim>\<open>for\<close> loop over the elements of a list, with the loop's variables as \<open>s\<close>.\<close>

primrec foldM ::
  "('s \<Rightarrow> 'b \<Rightarrow> RngState \<Rightarrow> 's outcome option) \<Rightarrow> 'b list \<Rightarrow> 's \<Rightarrow> RngState \<Rightarrow> 's outcome option" where
  "foldM body [] s rng = Some (Return s rng)"
| "foldM body (x # xs) s rng = andThen (body s x rng) (\<lambda>s' rng'. foldM body xs s' rng')"

text \<open>
  \<^verbatim>\<open>generate(rng?, size?)\<close>: \<^verbatim>\<open>rng || makeRng((Math.random() * (2 ** 32 - 1)) | 0)\<close>. A
  state is an object, hence truthy, so \<^verbatim>\<open>Math.random\<close> is called only when no state is
  passed. Every combinator below calls \<^verbatim>\<open>generate\<close> with the state it was given; the
  model writes those calls as the application \<open>g rng sz\<close>, and a generator is a function
  of the state and the size alone. The last subsection of the model gives generators
  access to \<^verbatim>\<open>Math.random\<close> and writes the calls as calls; the lemmas on it show that the
  two models of the library agree.
\<close>

definition generate :: "'a Generator \<Rightarrow> RngState option \<Rightarrow> nat option \<Rightarrow> entropy \<Rightarrow> 'a outcome option" where
  "generate g rng sz ent =
     g (case rng of
          Some r \<Rightarrow> r
        | None \<Rightarrow> makeRng (Some (toInt32 \<lfloor>fmul ent (2 ^ 32 - 1)\<rfloor>)) ent) sz"

definition map_gen :: "'a Generator \<Rightarrow> ('a \<Rightarrow> 'b) \<Rightarrow> 'b Generator" where
  "map_gen g f rng sz = andThen (g rng sz) (\<lambda>a rng'. Some (Return (f a) rng'))"



text \<open>
  \<^verbatim>\<open>suchThat\<close>: \<^verbatim>\<open>while (true) { output = this.generate(rng, size); if (pred(output))
  return output; }\<close>. The loop has no bound, so the function is partial.
\<close>

partial_function (option) suchThat :: "'a Generator \<Rightarrow> ('a \<Rightarrow> bool) \<Rightarrow> 'a Generator" where
  "suchThat g pred rng sz =
     (case g rng sz of
        None \<Rightarrow> None
      | Some (Return output rng') \<Rightarrow>
          if pred output then Some (Return output rng') else suchThat g pred rng' sz
      | Some (Throw e rng') \<Rightarrow> Some (Throw e rng')
      | Some OffModel \<Rightarrow> Some OffModel)"


definition of_gen :: "'a \<Rightarrow> 'a Generator" where
  "of_gen a rng sz = Some (Return a rng)"

subsection \<open>Primitives\<close>

definition int_gen :: "int Generator" where
  "int_gen rng sz = (case randomInt32 rng of (x, rng') \<Rightarrow> Some (Return x rng'))"

definition nat_gen :: "int Generator" where
  "nat_gen rng sz = (case randomInt32 rng of (x, rng') \<Rightarrow> Some (Return (x + 2147483648) rng'))"

definition float_gen :: "rat Generator" where
  "float_gen rng sz =
     (case randomInt32 rng of (x, rng') \<Rightarrow>
        Some (Return (of_int (x + 2147483648) / 4294967296) rng'))"

text \<open>
  \<^verbatim>\<open>interval(min, max)\<close>. \<^verbatim>\<open>Math.floor\<close> of the rounded product is an integer, and the
  sum with \<^verbatim>\<open>min\<close> is exact on the range stated above.
\<close>

definition interval :: "int \<Rightarrow> int \<Rightarrow> jsnum Generator" where
  "interval mn mx rng sz =
     (let magnitude = mx - mn
      in if magnitude < 2 ^ 32
         then (case randomInt32 rng of (x, rng') \<Rightarrow>
                 Some (Return (js_plus (js_rem (x + 2147483648) magnitude) mn) rng'))
         else andThen (float_gen rng None)
                (\<lambda>f rng'. Some (Return (Num (\<lfloor>fmul f (of_int magnitude)\<rfloor> + mn)) rng')))"



subsection \<open>Size scaling and arrays\<close>

text \<open>
  \<^verbatim>\<open>Math.max(Math.round(Math.log(size + 1) / Math.log(2)), 0)\<close>. \<^verbatim>\<open>Math.round\<close> rounds
  a half up, as \<open>round\<close> does. The two logarithms and their quotient are doubles, each
  close to the real number it stands for but not equal to it, so the quotient the code
  rounds is the real quotient with a small error. \<open>log2_nearest\<close> is the result with
  the logarithm taken in the reals. For a size below \<open>2\<^sup>2\<^sup>0\<close> the real quotient is
  at a distance of more than \<open>2\<^sup>-\<^sup>4\<^sup>3\<close> from every point where the rounding changes
  (lemma \<open>log2_nearest_stable\<close>), while a double quotient below \<open>21\<close> that is computed to
  within a few units in the last place is within \<open>2\<^sup>-\<^sup>4\<^sup>7\<close> of the real one: the
  code computes \<open>log2_nearest\<close> there. For larger sizes the real quotient can be
  closer to such a point than the doubles resolve, and the model gives no value.
\<close>

definition log2_nearest :: "nat \<Rightarrow> int" where
  "log2_nearest n = max (round (ln (real n + 1) / ln 2)) 0"

definition logsize :: "nat \<Rightarrow> int option" where
  "logsize n = (if int n < 2 ^ 20 then Some (log2_nearest n) else None)"

text \<open>
  \<^verbatim>\<open>new Array(length)\<close>: an array of \<open>length\<close> empty slots (\<open>None\<close>), or a
  \<^verbatim>\<open>RangeError\<close> when \<open>length\<close> is not an integer in \<open>[0, 2\<^sup>3\<^sup>2)\<close>; NaN is not.
\<close>

definition new_Array :: "jsnum \<Rightarrow> error + 'a option list" where
  "new_Array len =
     (case len of
        NaN \<Rightarrow> Inl RangeError
      | Num n \<Rightarrow> if 0 \<le> n \<and> n < 2 ^ 32 then Inr (replicate (nat n) None) else Inl RangeError)"

text \<open>The values of \<open>i\<close> in \<^verbatim>\<open>for (let i = 0; i < length; i++)\<close>: none when \<open>length\<close> is NaN.\<close>

fun indices_below :: "jsnum \<Rightarrow> nat list" where
  "indices_below (Num n) = [0..<nat n]"
| "indices_below NaN = []"

definition fill :: "'a Generator \<Rightarrow> nat \<Rightarrow> jsnum \<Rightarrow> 'a option list \<Rightarrow> RngState \<Rightarrow> 'a option list outcome option" where
  "fill gen size' len output rng =
     foldM (\<lambda>output i rng. andThen (gen rng (Some size'))
              (\<lambda>a rng'. Some (Return (output[i := Some a]) rng')))
       (indices_below len) output rng"

definition array :: "'a Generator \<Rightarrow> 'a option list Generator" where
  "array gen rng sz =
     (let size' = (case sz of None \<Rightarrow> 100 | Some s \<Rightarrow> s)
      in case logsize size' of
           None \<Rightarrow> Some OffModel
         | Some l \<Rightarrow>
             andThen (interval 0 l rng None)
               (\<lambda>len rng'. case new_Array len of
                              Inl e \<Rightarrow> Some (Throw e rng')
                            | Inr output \<Rightarrow> fill gen size' len output rng'))"

definition nearray :: "'a Generator \<Rightarrow> 'a option list Generator" where
  "nearray gen rng sz =
     (let size' = (case sz of None \<Rightarrow> 100 | Some s \<Rightarrow> s)
      in case logsize size' of
           None \<Rightarrow> Some OffModel
         | Some l \<Rightarrow>
             andThen (interval 1 (l + 1) rng None)
               (\<lambda>len rng'. case new_Array len of
                              Inl e \<Rightarrow> Some (Throw e rng')
                            | Inr output \<Rightarrow> fill gen size' len output rng'))"

text \<open>
  \<^verbatim>\<open>ascii\<close> and \<^verbatim>\<open>neascii\<close>: \<^verbatim>\<open>String.fromCharCode.apply(undefined, chars)\<close>. A string is
  the list of its 16-bit code units; \<^verbatim>\<open>fromCharCode\<close> takes a number modulo \<open>2\<^sup>1\<^sup>6\<close>, and
  NaN and \<^verbatim>\<open>undefined\<close> to \<open>0\<close>.
\<close>

fun fromCharCode :: "jsnum option \<Rightarrow> nat" where
  "fromCharCode (Some (Num n)) = nat (n mod 65536)"
| "fromCharCode (Some NaN) = 0"
| "fromCharCode None = 0"

definition ascii :: "nat list Generator" where
  "ascii = map_gen (array (interval 32 127)) (map fromCharCode)"

definition neascii :: "nat list Generator" where
  "neascii = map_gen (nearray (interval 32 127)) (map fromCharCode)"

text \<open>
  \<^verbatim>\<open>elems[k]\<close>: the element when \<open>k\<close> is an index of the array, \<^verbatim>\<open>undefined\<close> (\<open>None\<close>)
  for every other key, NaN included.
\<close>

definition element_at :: "'a list \<Rightarrow> jsnum \<Rightarrow> 'a option" where
  "element_at xs k =
     (case k of
        NaN \<Rightarrow> None
      | Num n \<Rightarrow> if 0 \<le> n \<and> n < int (length xs) then Some (xs ! nat n) else None)"

definition elements :: "'a list \<Rightarrow> 'a option Generator" where
  "elements elems rng sz =
     andThen (interval 0 (int (length elems)) rng None)
       (\<lambda>k rng'. Some (Return (element_at elems k) rng'))"


subsection \<open>Choice and structure\<close>

text \<open>
  \<^verbatim>\<open>frequency\<close>: the loop \<^verbatim>\<open>for (const [freq, gen] of args) { acc += freq; if (acc > choice)
  return gen.generate(rng, size); }\<close> gives the generator it draws from, or none when it
  runs to the end; then the function throws.
\<close>

fun frequency_pick :: "(int \<times> 'a Generator) list \<Rightarrow> int \<Rightarrow> jsnum \<Rightarrow> 'a Generator option" where
  "frequency_pick [] acc choice = None"
| "frequency_pick ((freq, gen) # args) acc choice =
     (let acc' = acc + freq
      in if js_gt acc' choice then Some gen else frequency_pick args acc' choice)"

definition frequency :: "(int \<times> 'a Generator) list \<Rightarrow> 'a Generator" where
  "frequency args rng sz =
     (let sum = foldl (\<lambda>acc x. acc + fst x) 0 args;
          size' = (case sz of None \<Rightarrow> 100 | Some s \<Rightarrow> s)
      in andThen (interval 0 sum rng None)
           (\<lambda>choice rng'. case frequency_pick args 0 choice of
                             Some gen \<Rightarrow> gen rng' (Some size')
                           | None \<Rightarrow> Some (Throw UnreachableCode rng')))"





text \<open>
  \<^verbatim>\<open>recursive\<close>: \<^verbatim>\<open>loop(n)\<close> is \<open>genZ\<close> when \<^verbatim>\<open>n <= 0\<close> or the chance drawn is \<open>0\<close>, and
  \<^verbatim>\<open>genS(loop(n - 1))\<close> otherwise. The chances are drawn while the generator is built,
  before it is drawn from; the depth starts at \<open>logsize\<close> of the size.
\<close>

primrec recursive_loop ::
  "'a Generator \<Rightarrow> ('a Generator \<Rightarrow> 'a Generator) \<Rightarrow> nat \<Rightarrow> RngState \<Rightarrow> 'a Generator outcome option" where
  "recursive_loop genZ genS 0 rng = Some (Return genZ rng)"
| "recursive_loop genZ genS (Suc n) rng =
     andThen (interval 0 3 rng None)
       (\<lambda>chance rng'.
          if chance = Num 0 then Some (Return genZ rng')
          else andThen (recursive_loop genZ genS n rng')
                 (\<lambda>self rng''. Some (Return (genS self) rng'')))"


subsection \<open>Shuffle, on a store of arrays\<close>

text \<open>
  \<^verbatim>\<open>shuffle\<close> takes a reference to the caller's array, copies it (\<^verbatim>\<open>array.slice()\<close>) and
  swaps in the copy. The store maps a reference to the array it points to;
  \<open>next_ref\<close> is the first reference not yet allocated.
\<close>

record 'a store =
  cells :: "nat \<Rightarrow> 'a list"
  next_ref :: nat

definition slice :: "nat \<Rightarrow> 'a store \<Rightarrow> nat \<times> 'a store" where
  "slice a h =
     (next_ref h, h\<lparr>cells := (cells h)(next_ref h := cells h a), next_ref := Suc (next_ref h)\<rparr>)"

text \<open>
  The loop body: \<^verbatim>\<open>j = interval(0, output.length - i).generate(rng); tmp = output[i];
  output[i] = output[i + j]; output[i + j] = tmp\<close>.
\<close>

definition swap_step :: "nat \<Rightarrow> nat \<Rightarrow> 'a store \<Rightarrow> RngState \<Rightarrow> 'a store outcome option" where
  "swap_step output i h rng =
     andThen (interval 0 (int (length (cells h output)) - int i) rng None)
       (\<lambda>j rng'.
          case j of
            NaN \<Rightarrow> Some OffModel
          | Num j' \<Rightarrow>
              if 0 \<le> int i + j' \<and> int i + j' < int (length (cells h output))
              then let k = nat (int i + j');
                       tmp = cells h output ! i;
                       out1 = (cells h output)[i := cells h output ! k];
                       out2 = out1[k := tmp]
                   in Some (Return (h\<lparr>cells := (cells h)(output := out2)\<rparr>) rng')
              else Some OffModel)"

text \<open>
  \<^verbatim>\<open>for (let i = 0; i < output.length - 1; i++)\<close>: the swaps keep the length, so the
  bound is that of the copy; for the empty array \<^verbatim>\<open>output.length - 1\<close> is \<open>-1\<close> and the
  loop does not run, as with the truncating subtraction here.
\<close>

definition shuffle :: "nat \<Rightarrow> 'a store \<Rightarrow> (nat \<times> 'a store) Generator" where
  "shuffle arr h rng sz =
     (case slice arr h of (output, h1) \<Rightarrow>
        andThen (foldM (\<lambda>h i rng. swap_step output i h rng)
                   [0..<length (cells h1 output) - 1] h1 rng)
          (\<lambda>h' rng'. Some (Return (output, h') rng')))"

subsection \<open>Partitions\<close>

text \<open>
  The inner loop \<^verbatim>\<open>for (let i = 0, acc = 0; i < freq.length; i++) { acc += freq[i];
  if (acc > choice) { output[i].push(input); break; } }\<close>: the index at which it breaks,
  or \<open>None\<close> when it runs to the end and pushes nothing.
\<close>

fun pick :: "int list \<Rightarrow> nat \<Rightarrow> int \<Rightarrow> jsnum \<Rightarrow> nat option" where
  "pick [] i acc choice = None"
| "pick (f # fs) i acc choice =
     (let acc' = acc + f in if js_gt acc' choice then Some i else pick fs (Suc i) acc' choice)"

text \<open>
  \<^verbatim>\<open>Array.apply(undefined, Array(count))\<close>, the array of \<open>count\<close> elements that
  \<^verbatim>\<open>partitions\<close> maps over. \<^verbatim>\<open>Array(count)\<close> throws a \<^verbatim>\<open>RangeError\<close> for a count of
  \<open>2\<^sup>3\<^sup>2\<close> or more. The call of \<^verbatim>\<open>apply\<close> passes one argument for each element, and an
  engine accepts only so many arguments in a call (of the order of \<open>10\<^sup>5\<close>, depending on
  the engine and its stack); beyond that it throws a \<^verbatim>\<open>RangeError\<close> too. That number is
  not fixed by the library: it is the parameter \<open>max_args\<close> of the model.
\<close>

definition apply_Array :: "int \<Rightarrow> nat \<Rightarrow> error + unit list" where
  "apply_Array max_args n =
     (if 2 ^ 32 \<le> int n \<or> max_args < int n then Inl RangeError
      else Inr (replicate n ()))"

text \<open>
  \<^verbatim>\<open>countOrFreq\<close> is a number (\<open>Inl\<close>) or a list of weights (\<open>Inr\<close>). For a number the
  weights are \<^verbatim>\<open>Array.apply(undefined, Array(count)).map(() => 100)\<close>, built (or refused)
  when the generator is built. The buckets are
  \<^verbatim>\<open>Array.apply(undefined, Array(count)).map(() => [])\<close>, built (or refused) at the start
  of every draw, before the state is used.
\<close>

definition partitions :: "int \<Rightarrow> 'a list \<Rightarrow> nat + int list \<Rightarrow> error + 'a list list Generator" where
  "partitions max_args inputs countOrFreq =
     (let count = (case countOrFreq of Inl n \<Rightarrow> n | Inr fr \<Rightarrow> length fr)
      in case (case countOrFreq of
                 Inl n \<Rightarrow> (case apply_Array max_args count of
                             Inl e \<Rightarrow> Inl e
                           | Inr slots \<Rightarrow> Inr (map (\<lambda>u. 100) slots))
               | Inr fr \<Rightarrow> Inr fr) of
           Inl e \<Rightarrow> Inl e
         | Inr freq \<Rightarrow>
             let sum = foldl (\<lambda>acc x. acc + x) 0 freq
             in Inr (\<lambda>rng sz.
                  case apply_Array max_args count of
                    Inl e \<Rightarrow> Some (Throw e rng)
                  | Inr slots \<Rightarrow>
                      foldM (\<lambda>output input rng.
                               andThen (interval 0 sum rng None)
                                 (\<lambda>choice rng'.
                                    case pick freq 0 0 choice of
                                      Some i \<Rightarrow> Some (Return (output[i := output ! i @ [input]]) rng')
                                    | None \<Rightarrow> Some (Return output rng')))
                        inputs (map (\<lambda>u. []) slots) rng))"

subsection \<open>Shrinking\<close>

text \<open>
  \<^verbatim>\<open>smaller.nat\<close>: \<^verbatim>\<open>let i = x | 0; do { i >>= 1; output.push(i); } while (i > 0)\<close>.
  \<^verbatim>\<open>>>\<close> on a 32-bit integer halves it, rounding down.
\<close>

function nat_loop :: "int \<Rightarrow> int list \<Rightarrow> int list" where
  "nat_loop i output =
     (let i' = i div 2; output' = output @ [i']
      in if 0 < i' then nat_loop i' output' else output')"
  by pat_completeness auto
termination
  by (relation "measure (\<lambda>(i, output). nat i)") auto

declare nat_loop.simps [simp del]

definition smaller_nat :: "int \<Rightarrow> int list" where
  "smaller_nat x = nat_loop (toInt32 x) []"

text \<open>
  \<^verbatim>\<open>x.substr(0, i)\<close>: the first \<open>i\<close> characters, none when \<open>i\<close> is not positive.
\<close>

definition substr0 :: "'a list \<Rightarrow> int \<Rightarrow> 'a list" where
  "substr0 x i = take (nat i) x"

text \<open>
  \<^verbatim>\<open>smaller.nestring\<close>: \<^verbatim>\<open>let i = x.length; do { i >>= 1; output.push(x.substr(0, i)); }
  while (i > 1)\<close>, and \<^verbatim>\<open>smaller.string\<close> with \<^verbatim>\<open>while (i > 0)\<close>. \<^verbatim>\<open>i >>= 1\<close> converts
  \<open>i\<close> to a 32-bit integer first.
\<close>

function nestring_loop :: "'a list \<Rightarrow> int \<Rightarrow> 'a list list \<Rightarrow> 'a list list" where
  "nestring_loop x i output =
     (let i' = toInt32 i div 2; output' = output @ [substr0 x i']
      in if 1 < i' then nestring_loop x i' output' else output')"
  by pat_completeness auto
termination
proof (relation "measure (\<lambda>(x, i, out). nat (toInt32 i))")
  fix x :: "'a list" and i :: int and out :: "'a list list" and i' out'
  assume i': "i' = toInt32 i div 2" and "1 < i'"
  have "- (2 ^ 31) \<le> toInt32 i" and "toInt32 i < 2 ^ 31"
    unfolding toInt32_def
    using sint_ge [of "word_of_int i :: 32 word"] sint_lt [of "word_of_int i :: 32 word"]
    by simp_all
  with i' \<open>1 < i'\<close> have "- (2 ^ 31) \<le> i'" "i' < 2 ^ 31" "i' < toInt32 i"
    by linarith+
  moreover from this have "toInt32 i' = i'"
    unfolding toInt32_def by (simp add: sint_sbintrunc' signed_take_bit_int_eq_self)
  ultimately show "((x, i', out'), x, i, out) \<in> measure (\<lambda>(x, i, out). nat (toInt32 i))"
    using \<open>1 < i'\<close> by simp
qed simp

declare nestring_loop.simps [simp del]

definition smaller_nestring :: "'a list \<Rightarrow> 'a list list" where
  "smaller_nestring x = nestring_loop x (int (length x)) []"

function string_loop :: "'a list \<Rightarrow> int \<Rightarrow> 'a list list \<Rightarrow> 'a list list" where
  "string_loop x i output =
     (let i' = toInt32 i div 2; output' = output @ [substr0 x i']
      in if 0 < i' then string_loop x i' output' else output')"
  by pat_completeness auto
termination
proof (relation "measure (\<lambda>(x, i, out). nat (toInt32 i))")
  fix x :: "'a list" and i :: int and out :: "'a list list" and i' out'
  assume i': "i' = toInt32 i div 2" and "0 < i'"
  have "- (2 ^ 31) \<le> toInt32 i" and "toInt32 i < 2 ^ 31"
    unfolding toInt32_def
    using sint_ge [of "word_of_int i :: 32 word"] sint_lt [of "word_of_int i :: 32 word"]
    by simp_all
  with i' \<open>0 < i'\<close> have "- (2 ^ 31) \<le> i'" "i' < 2 ^ 31" "i' < toInt32 i"
    by linarith+
  moreover from this have "toInt32 i' = i'"
    unfolding toInt32_def by (simp add: sint_sbintrunc' signed_take_bit_int_eq_self)
  ultimately show "((x, i', out'), x, i, out) \<in> measure (\<lambda>(x, i, out). nat (toInt32 i))"
    using \<open>0 < i'\<close> by simp
qed simp

declare string_loop.simps [simp del]

definition smaller_string :: "'a list \<Rightarrow> 'a list list" where
  "smaller_string x = string_loop x (int (length x)) []"

text \<open>
  \<^verbatim>\<open>smaller.array\<close>: the loop of \<^verbatim>\<open>smaller.string\<close>, pushing a copy of the whole array
  each time (the line that would cut it is commented out); the element shrinker is
  not used.
\<close>

function array_loop :: "'a list \<Rightarrow> int \<Rightarrow> 'a list list \<Rightarrow> 'a list list" where
  "array_loop xs i output =
     (let i' = toInt32 i div 2; output' = output @ [xs]
      in if 0 < i' then array_loop xs i' output' else output')"
  by pat_completeness auto
termination
proof (relation "measure (\<lambda>(x, i, out). nat (toInt32 i))")
  fix x :: "'a list" and i :: int and out :: "'a list list" and i' out'
  assume i': "i' = toInt32 i div 2" and "0 < i'"
  have "- (2 ^ 31) \<le> toInt32 i" and "toInt32 i < 2 ^ 31"
    unfolding toInt32_def
    using sint_ge [of "word_of_int i :: 32 word"] sint_lt [of "word_of_int i :: 32 word"]
    by simp_all
  with i' \<open>0 < i'\<close> have "- (2 ^ 31) \<le> i'" "i' < 2 ^ 31" "i' < toInt32 i"
    by linarith+
  moreover from this have "toInt32 i' = i'"
    unfolding toInt32_def by (simp add: sint_sbintrunc' signed_take_bit_int_eq_self)
  ultimately show "((x, i', out'), x, i, out) \<in> measure (\<lambda>(x, i, out). nat (toInt32 i))"
    using \<open>0 < i'\<close> by simp
qed simp

declare array_loop.simps [simp del]

definition smaller_array :: "'a list \<Rightarrow> ('a \<Rightarrow> 'a list) \<Rightarrow> 'a list list" where
  "smaller_array xs shr = array_loop xs (int (length xs)) []"

text \<open>
  \<^verbatim>\<open>Arbitrary<A>\<close>: a generator with an optional shrink function and an optional show
  function, and the three arbitraries the module exports.
\<close>

record 'a Arbitrary =
  generator :: "'a Generator"
  shrink :: "('a \<Rightarrow> 'a list) option"
  show_fn :: "('a \<Rightarrow> string) option"

definition nat_arbitrary :: "int Arbitrary" where
  "nat_arbitrary = \<lparr>generator = nat_gen, shrink = Some smaller_nat, show_fn = None\<rparr>"

definition ascii_arbitrary :: "nat list Arbitrary" where
  "ascii_arbitrary = \<lparr>generator = ascii, shrink = Some smaller_string, show_fn = None\<rparr>"

definition neascii_arbitrary :: "nat list Arbitrary" where
  "neascii_arbitrary = \<lparr>generator = neascii, shrink = Some smaller_nestring, show_fn = None\<rparr>"

subsection \<open>The library in the ambient source of entropy\<close>

text \<open>
  \<^verbatim>\<open>Math.random\<close> is a source of numbers outside the state, and any JavaScript function
  can read it. A generator wraps a JavaScript function, so in general its draw depends on
  the state, the size and that source. This subsection models the library again with the
  source made explicit: the ambient source is the sequence of the doubles that the calls
  of \<^verbatim>\<open>Math.random()\<close> will return, in order, and a call of \<^verbatim>\<open>Math.random()\<close> takes the
  first and leaves the rest.
\<close>

type_synonym ambient = "nat \<Rightarrow> entropy"

definition Math_random :: "ambient \<Rightarrow> entropy \<times> ambient" where
  "Math_random w = (w 0, \<lambda>i. w (Suc i))"

text \<open>
  A generator in the ambient source: its draw returns the outcome together with what is
  left of the source, or \<open>None\<close> when it does not return.
\<close>

type_synonym 'a Generator_w = "RngState \<Rightarrow> nat option \<Rightarrow> ambient \<Rightarrow> ('a outcome \<times> ambient) option"

text \<open>
  \<^verbatim>\<open>makeRng(seed?)\<close> reads the source when, and only when, there is no seed.
\<close>

definition makeRng_w :: "int option \<Rightarrow> ambient \<Rightarrow> RngState \<times> ambient" where
  "makeRng_w seed w =
     (case (case seed of
              None \<Rightarrow> (case Math_random w of (x, w') \<Rightarrow> (\<lfloor>fmul x (2 ^ 31 - 1)\<rfloor>, w'))
            | Some s \<Rightarrow> (s, w)) of
        (seed', w') \<Rightarrow>
          (warmup 20
             (Int32Array 0xf1ea5eed (word_of_int seed') (word_of_int seed') (word_of_int seed')),
           w'))"

text \<open>
  \<^verbatim>\<open>generate(rng?, size?)\<close>: \<^verbatim>\<open>this._generate(rng || makeRng((Math.random() * (2 ** 32 - 1))
  | 0), size)\<close>. The right operand of \<^verbatim>\<open>||\<close> is evaluated only when no state is passed;
  then \<^verbatim>\<open>Math.random\<close> is called once and \<^verbatim>\<open>makeRng\<close> gets a seed.
\<close>

definition generate_w :: "'a Generator_w \<Rightarrow> RngState option \<Rightarrow> nat option \<Rightarrow> ambient \<Rightarrow> ('a outcome \<times> ambient) option" where
  "generate_w g rng sz w =
     (case rng of
        Some r \<Rightarrow> g r sz w
      | None \<Rightarrow>
          (case Math_random w of (x, w1) \<Rightarrow>
             (case makeRng_w (Some (toInt32 \<lfloor>fmul x (2 ^ 32 - 1)\<rfloor>)) w1 of (r, w2) \<Rightarrow>
                g r sz w2)))"









definition int_w :: "int Generator_w" where
  "int_w rng sz w = (case randomInt32 rng of (x, rng') \<Rightarrow> Some (Return x rng', w))"
























text \<open>
  A run of the external test runner: the state is built with \<^verbatim>\<open>makeRng(s)\<close>, then one call
  \<^verbatim>\<open>g.generate(state, size)\<close> is made for each size of the list, in order. The result is
  the sequence of what the calls produce. A runner that catches an exception goes on with
  the state as the call left it; nothing follows a call that does not return.
\<close>

fun calls_w :: "'a Generator_w \<Rightarrow> RngState \<Rightarrow> nat option list \<Rightarrow> ambient \<Rightarrow> 'a outcome option list" where
  "calls_w g rng [] w = []"
| "calls_w g rng (sz # szs) w =
     (case generate_w g (Some rng) sz w of
        None \<Rightarrow> [None]
      | Some (r, w') \<Rightarrow>
          Some r # (case r of
                      Return a rng' \<Rightarrow> calls_w g rng' szs w'
                    | Throw e rng' \<Rightarrow> calls_w g rng' szs w'
                    | OffModel \<Rightarrow> []))"

definition run_w :: "'a Generator_w \<Rightarrow> int \<Rightarrow> nat option list \<Rightarrow> ambient \<Rightarrow> 'a outcome option list" where
  "run_w g s szs w = (case makeRng_w (Some s) w of (state, w') \<Rightarrow> calls_w g state szs w')"

text \<open>
  \<open>lift h\<close> is the generator that draws as the generator \<open>h\<close> of the model without the
  source does, and neither reads nor consumes the source.
\<close>

definition put :: "ambient \<Rightarrow> 'a outcome option \<Rightarrow> ('a outcome \<times> ambient) option" where
  "put w m = map_option (\<lambda>r. (r, w)) m"

definition lift :: "'a Generator \<Rightarrow> 'a Generator_w" where
  "lift h rng sz w = put w (h rng sz)"

subsection \<open>Auxiliary notions for the statements\<close>

text \<open>
  Building the generator of \<^verbatim>\<open>partitions(inputs, countOrFreq)\<close> and drawing from it once,
  on an engine that accepts \<open>max_args\<close> arguments in a call: the error of the
  construction, or the outcome of the draw.
\<close>

definition draw_partitions ::
  "int \<Rightarrow> 'a list \<Rightarrow> nat + int list \<Rightarrow> RngState \<Rightarrow> nat option \<Rightarrow> error + 'a list list outcome option" where
  "draw_partitions max_args inputs countOrFreq rng sz =
     (case partitions max_args inputs countOrFreq of
        Inl e \<Rightarrow> Inl e
      | Inr gen \<Rightarrow> Inr (gen rng sz))"

text \<open>
  The inputs that a list of choices \<open>cs\<close> (one bucket index for each input, in order)
  assigns to bucket \<open>b\<close>, in the order of the inputs.
\<close>

definition assigned :: "'a list \<Rightarrow> nat list \<Rightarrow> nat \<Rightarrow> 'a list" where
  "assigned inputs cs b = map fst (filter (\<lambda>p. snd p = b) (zip inputs cs))"

text \<open>
  The loop invariant of \<^verbatim>\<open>shuffle\<close>: the array at \<open>out\<close> is a rearrangement of what it
  was, and every other array of the store is as it was.
\<close>

definition shuffled :: "nat \<Rightarrow> 'a store \<Rightarrow> 'a store \<Rightarrow> bool" where
  "shuffled out h h' \<longleftrightarrow>
     length (cells h' out) = length (cells h out) \<and> mset (cells h' out) = mset (cells h out) \<and>
     (\<forall>a. a \<noteq> out \<longrightarrow> cells h' a = cells h a)"

section \<open>Auxiliary facts\<close>

subsection \<open>Conversion to 32 bits\<close>

lemma toInt32_range: "- (2 ^ 31) \<le> toInt32 x \<and> toInt32 x < 2 ^ 31"
  unfolding toInt32_def
  using sint_ge [of "word_of_int x :: 32 word"] sint_lt [of "word_of_int x :: 32 word"]
  by simp

lemma toInt32_id: "- (2 ^ 31) \<le> x \<Longrightarrow> x < 2 ^ 31 \<Longrightarrow> toInt32 x = x"
  unfolding toInt32_def by (simp add: sint_sbintrunc' signed_take_bit_int_eq_self)

subsection \<open>Rounding\<close>

lemma bitlen_bounds: "0 < n \<Longrightarrow> 0 < bitlen n \<and> 2 ^ nat (bitlen n - 1) \<le> n \<and> n < 2 ^ nat (bitlen n)"
proof (induction n rule: bitlen.induct)
  case (1 n)
  show ?case
  proof (cases "0 < n div 2")
    case True
    with 1 have ih: "0 < bitlen (n div 2)" "2 ^ nat (bitlen (n div 2) - 1) \<le> n div 2"
      "n div 2 < 2 ^ nat (bitlen (n div 2))" by simp_all
    have b: "bitlen n = 1 + bitlen (n div 2)" using 1(2) by (subst bitlen.simps) simp
    have e1: "nat (bitlen n - 1) = Suc (nat (bitlen (n div 2) - 1))" using b ih(1) by simp
    have e2: "nat (bitlen n) = Suc (nat (bitlen (n div 2)))" using b ih(1) by simp
    show ?thesis unfolding e1 e2 using ih b by (simp; linarith)
  next
    case False
    with 1(2) have n1: "n = 1" by linarith
    have "bitlen (0::int) = 0" by (subst bitlen.simps) simp
    then have "bitlen 1 = 1" by (subst bitlen.simps) simp
    with n1 show ?thesis by simp
  qed
qed

lemma ilog2_lower: assumes "0 < x" shows "2 powi (ilog2 x) \<le> x"
proof -
  obtain p q where pq: "quotient_of x = (p, q)" by (cases "quotient_of x")
  then have q: "0 < q" and x: "x = of_int p / of_int q"
    using quotient_of_denom_pos quotient_of_div by blast+
  from assms x q have p: "0 < p" by (simp add: zero_less_divide_iff)
  define t where "t = bitlen p - bitlen q"
  show ?thesis
  proof (cases "2 powi t \<le> x")
    case True
    then show ?thesis using pq by (simp add: ilog2_def t_def)
  next
    case False
    then have il: "ilog2 x = t - 1" using pq by (simp add: ilog2_def t_def Let_def)
    from bitlen_bounds[OF p] have bp: "0 < bitlen p" "(2::int) ^ nat (bitlen p - 1) \<le> p" by simp_all
    from bitlen_bounds[OF q] have bq: "0 < bitlen q" "q < (2::int) ^ nat (bitlen q)" by simp_all
    have "(2::rat) powi (t - 1) = 2 powi (bitlen p - 1) / 2 powi (bitlen q)"
      by (simp add: t_def power_int_diff)
    also have "\<dots> = 2 ^ nat (bitlen p - 1) / 2 ^ nat (bitlen q)"
      using bp(1) bq(1) by (simp add: power_int_def)
    also have "\<dots> \<le> of_int p / of_int q"
    proof (rule frac_le)
      show "(0::rat) \<le> of_int p" using p by simp
      have "(of_int (2 ^ nat (bitlen p - 1)) :: rat) \<le> of_int p" using bp(2) by (simp only: of_int_le_iff)
      then show "(2::rat) ^ nat (bitlen p - 1) \<le> of_int p" by simp
      show "(0::rat) < of_int q" using q by simp
      have "(of_int q :: rat) \<le> of_int (2 ^ nat (bitlen q))" using bq(2) by (simp only: of_int_le_iff)
      then show "(of_int q :: rat) \<le> 2 ^ nat (bitlen q)" by simp
    qed
    finally show ?thesis using il x by simp
  qed
qed

lemma ilog2_upper: assumes "0 < x" shows "x < 2 powi (ilog2 x + 1)"
proof -
  obtain p q where pq: "quotient_of x = (p, q)" by (cases "quotient_of x")
  then have q: "0 < q" and x: "x = of_int p / of_int q"
    using quotient_of_denom_pos quotient_of_div by blast+
  from assms x q have p: "0 < p" by (simp add: zero_less_divide_iff)
  define t where "t = bitlen p - bitlen q"
  show ?thesis
  proof (cases "2 powi t \<le> x")
    case False
    then have "ilog2 x = t - 1" using pq by (simp add: ilog2_def t_def Let_def)
    with False show ?thesis by simp
  next
    case True
    then have il: "ilog2 x = t" using pq by (simp add: ilog2_def t_def Let_def)
    from bitlen_bounds[OF p] have bp: "0 < bitlen p" "p < (2::int) ^ nat (bitlen p)" by simp_all
    from bitlen_bounds[OF q] have bq: "0 < bitlen q" "(2::int) ^ nat (bitlen q - 1) \<le> q" by simp_all
    have "of_int p / of_int q < (2::rat) ^ nat (bitlen p) / 2 ^ nat (bitlen q - 1)"
    proof (rule frac_less)
      show "(0::rat) \<le> of_int p" using p by simp
      have "(of_int p :: rat) < of_int (2 ^ nat (bitlen p))" using bp(2) by (simp only: of_int_less_iff)
      then show "(of_int p :: rat) < 2 ^ nat (bitlen p)" by simp
      show "(0::rat) < 2 ^ nat (bitlen q - 1)" by simp
      have "(of_int (2 ^ nat (bitlen q - 1)) :: rat) \<le> of_int q" using bq(2) by (simp only: of_int_le_iff)
      then show "(2::rat) ^ nat (bitlen q - 1) \<le> of_int q" by simp
    qed
    also have "\<dots> = 2 powi (bitlen p) / 2 powi (bitlen q - 1)"
      using bp(1) bq(1) by (simp add: power_int_def)
    also have "\<dots> = 2 powi (t + 1)"
      by (simp add: t_def power_int_diff power_int_add)
    finally show ?thesis using il x by simp
  qed
qed

lemma round_half_even_bounds: "of_int (round_half_even s) \<le> s + 1 / 2" "0 \<le> s \<Longrightarrow> 0 \<le> round_half_even s"
proof -
  have f: "of_int \<lfloor>s\<rfloor> \<le> s" by simp
  show "of_int (round_half_even s) \<le> s + 1 / 2"
    unfolding round_half_even_def Let_def using f by (auto simp: not_less; linarith)
  assume "0 \<le> s" then have "0 \<le> \<lfloor>s\<rfloor>" by simp
  then show "0 \<le> round_half_even s" unfolding round_half_even_def Let_def by auto
qed

lemma round_double_upper: assumes "0 < x"
  shows "0 \<le> round_double x" "round_double x \<le> x * (1 + 1 / 2 ^ 53)"
proof -
  define e where "e = ilog2 x - 52"
  define s where "s = x / 2 powi e"
  have pe: "(0::rat) < 2 powi e" by simp
  have rd: "round_double x = of_int (round_half_even s) * 2 powi e"
    using assms by (simp add: round_double_def Let_def e_def s_def)
  have s0: "0 \<le> s" using assms pe by (simp add: s_def)
  show "0 \<le> round_double x" unfolding rd using round_half_even_bounds(2)[OF s0] by simp
  have "(2::rat) powi e * 2 ^ 52 = 2 powi (ilog2 x)"
    by (simp add: e_def power_int_diff)
  then have le: "(2::rat) powi e * 2 ^ 52 \<le> x" using ilog2_lower[OF assms] by simp
  have "round_double x \<le> (s + 1 / 2) * 2 powi e"
    unfolding rd using round_half_even_bounds(1)[of s] pe by (simp only: mult_le_cancel_right_pos)
  also have "\<dots> = x + 2 powi e / 2" using pe by (simp add: s_def field_simps)
  also have "\<dots> \<le> x + x / 2 ^ 53" using le by (simp add: field_simps)
  finally show "round_double x \<le> x * (1 + 1 / 2 ^ 53)" by (simp add: field_simps)
qed

subsection \<open>The range of a draw\<close>

lemma randomInt32_range:
  "0 \<le> fst (randomInt32 rng) + 2147483648 \<and> fst (randomInt32 rng) + 2147483648 < 4294967296"
proof -
  obtain a b c d where r: "rng = Int32Array a b c d" by (cases rng) auto
  define w where "w = a - (push_bit 27 b OR drop_bit (32 - 27) b) + (b XOR (push_bit 17 c OR drop_bit (32 - 17) c))"
  have "fst (randomInt32 rng) = sint w" by (simp add: r w_def Let_def)
  moreover have "- (2 ^ 31) \<le> sint w" "sint w < 2 ^ 31"
    using sint_ge [of w] sint_lt [of w] by simp_all
  ultimately show ?thesis by simp
qed

lemma fmul_floor_range:
  assumes k: "0 \<le> k" "k < 4294967296" and m: "1 \<le> m"
  shows "0 \<le> \<lfloor>fmul (of_int k / 4294967296) (of_int m)\<rfloor>"
    and "\<lfloor>fmul (of_int k / 4294967296) (of_int m)\<rfloor> < m"
proof -
  define x :: rat where "x = of_int k / 4294967296 * of_int m"
  have fm: "fmul (of_int k / 4294967296) (of_int m) = round_double x" by (simp add: fmul_def x_def)
  have both: "0 \<le> round_double x \<and> round_double x < of_int m"
  proof (cases "k = 0")
    case True
    then show ?thesis using m by (simp add: x_def round_double_def)
  next
    case False
    with k have kp: "1 \<le> k" by simp
    have xp: "0 < x" using kp m by (simp add: x_def)
    have k': "(of_int k :: rat) \<le> 4294967295"
    proof -
      have "k \<le> 4294967295" using k by simp
      then have "(of_int k :: rat) \<le> of_int 4294967295" by (simp only: of_int_le_iff)
      then show ?thesis by simp
    qed
    have mp: "(0::rat) < of_int m" using m by simp
    have "x \<le> 4294967295 / 4294967296 * of_int m"
      unfolding x_def using k' mp by (simp add: field_simps)
    then have "x * (1 + 1 / 2 ^ 53) \<le> (4294967295 / 4294967296 * of_int m) * (1 + 1 / 2 ^ 53)"
      by (simp only: mult_le_cancel_right) simp
    also have "\<dots> < of_int m" using mp by (simp add: field_simps)
    finally have "x * (1 + 1 / 2 ^ 53) < of_int m" .
    with round_double_upper[OF xp] show ?thesis by simp
  qed
  show "0 \<le> \<lfloor>fmul (of_int k / 4294967296) (of_int m)\<rfloor>" using both fm by simp
  show "\<lfloor>fmul (of_int k / 4294967296) (of_int m)\<rfloor> < m" using both fm by (simp add: floor_less_iff)
qed

lemma js_rem_pos: "0 \<le> a \<Longrightarrow> 0 < b \<Longrightarrow> js_rem a b = Num (a mod b)"
  by (cases "a = 0") (simp_all add: js_rem_def)

lemma interval_draw:
  assumes "mn < mx"
  shows "\<exists>x. interval mn mx rng sz = Some (Return (Num x) (snd (randomInt32 rng))) \<and> mn \<le> x \<and> x < mx"
proof -
  obtain v rng' where r: "randomInt32 rng = (v, rng')" by (cases "randomInt32 rng")
  from randomInt32_range[of rng] r have v: "0 \<le> v + 2147483648" "v + 2147483648 < 4294967296" by simp_all
  have m: "0 < mx - mn" using assms by simp
  show ?thesis
  proof (cases "mx - mn < 2 ^ 32")
    case True
    then have "interval mn mx rng sz = Some (Return (Num ((v + 2147483648) mod (mx - mn) + mn)) rng')"
      using r v m by (simp add: interval_def js_rem_pos)
    moreover have "0 \<le> (v + 2147483648) mod (mx - mn)" "(v + 2147483648) mod (mx - mn) < mx - mn"
      using m by simp_all
    ultimately show ?thesis using r by auto
  next
    case False
    then have "interval mn mx rng sz =
      Some (Return (Num (\<lfloor>fmul (of_int (v + 2147483648) / 4294967296) (of_int (mx - mn))\<rfloor> + mn)) rng')"
      using r by (simp add: interval_def float_gen_def andThen_def)
    moreover have "0 \<le> \<lfloor>fmul (of_int (v + 2147483648) / 4294967296) (of_int (mx - mn))\<rfloor>"
      "\<lfloor>fmul (of_int (v + 2147483648) / 4294967296) (of_int (mx - mn))\<rfloor> < mx - mn"
      using fmul_floor_range[OF v, of "mx - mn"] m by simp_all
    ultimately show ?thesis using r by auto
  qed
qed

lemma interval_empty: "interval mn mn rng sz = Some (Return NaN (snd (randomInt32 rng)))"
  by (cases "randomInt32 rng") (simp add: interval_def js_rem_def)

lemma generate_with_state: "generate g (Some rng) sz ent = g rng sz"
  by (simp add: generate_def)

subsection \<open>Size scaling\<close>

lemma log2_nearest_0: "log2_nearest 0 = 0"
  by (simp add: log2_nearest_def)

lemma log2_nearest_mono: "m \<le> n \<Longrightarrow> log2_nearest m \<le> log2_nearest n"
proof -
  assume "m \<le> n"
  then have "ln (real m + 1) \<le> ln (real n + 1)" by simp
  then have "ln (real m + 1) / ln 2 \<le> ln (real n + 1) / ln 2"
    by (simp add: divide_right_mono)
  then have "round (ln (real m + 1) / ln 2) \<le> round (ln (real n + 1) / ln 2)"
    by (rule round_mono)
  then show ?thesis by (simp add: log2_nearest_def)
qed

lemma log2_nearest_1: "log2_nearest (Suc 0) = 1"
  by (simp add: log2_nearest_def)

lemma log2_nearest_pos: "1 \<le> n \<Longrightarrow> 1 \<le> log2_nearest n"
  using log2_nearest_mono [of "Suc 0" n] by (simp add: log2_nearest_1)

lemma log2_nearest_le: assumes "n < 2 ^ 53" shows "log2_nearest n \<le> 53"
proof -
  have "real n + 1 \<le> 2 ^ 53" using assms
    by (metis Suc_leI of_nat_Suc of_nat_le_iff of_nat_numeral of_nat_power add.commute semiring_1_class.of_nat_simps(2))
  then have "ln (real n + 1) \<le> ln ((2 :: real) ^ 53)" by (subst ln_le_cancel_iff) simp_all
  also have "\<dots> = real 53 * ln 2" by (rule ln_realpow)
  finally have "ln (real n + 1) / ln 2 \<le> 53" by (simp add: field_simps)
  then have "round (ln (real n + 1) / ln 2) \<le> round (53 :: real)" by (rule round_mono)
  then show ?thesis by (simp add: log2_nearest_def)
qed

lemma log2_nearest_bits: "log2_nearest n = bitlen ((int n + 1)\<^sup>2) div 2"
proof -
  define m where "m = int n + 1"
  define b where "b = bitlen (m\<^sup>2)"
  define x where "x = ln (real n + 1) / ln 2"
  have m: "1 \<le> m" by (simp add: m_def)
  then have "0 < m\<^sup>2" by simp
  from bitlen_bounds [OF this]
  have b: "0 < b" "2 ^ nat (b - 1) \<le> m\<^sup>2" "m\<^sup>2 < 2 ^ nat b" by (simp_all add: b_def)
  have rm: "real_of_int m = real n + 1" by (simp add: m_def)
  have l2: "0 < ln (2 :: real)" by simp
  have lnm: "ln (real_of_int (m\<^sup>2)) = 2 * ln (real n + 1)"
    using ln_realpow [of "real n + 1" 2] by (simp add: rm)
  have "real_of_int (2 ^ nat (b - 1)) \<le> real_of_int (m\<^sup>2)" using b(2) by (simp only: of_int_le_iff)
  then have "ln ((2 :: real) ^ nat (b - 1)) \<le> ln (real_of_int (m\<^sup>2))"
    by (subst ln_le_cancel_iff) (use m in simp_all)
  then have "real (nat (b - 1)) * ln 2 \<le> 2 * ln (real n + 1)"
    by (simp only: lnm ln_realpow)
  then have lo: "real_of_int (b - 1) \<le> 2 * x"
    using b(1) l2 by (simp add: x_def field_simps)
  have "real_of_int (m\<^sup>2) < real_of_int (2 ^ nat b)" using b(3) by (simp only: of_int_less_iff)
  then have "ln (real_of_int (m\<^sup>2)) < ln ((2 :: real) ^ nat b)"
    by (subst ln_less_cancel_iff) (use m in simp_all)
  then have "2 * ln (real n + 1) < real (nat b) * ln 2"
    by (simp only: lnm ln_realpow)
  then have hi: "2 * x < real_of_int b"
    using b(1) l2 by (simp add: x_def field_simps)
  define k where "k = b div 2"
  have kb: "2 * k \<le> b" "b \<le> 2 * k + 1" unfolding k_def by linarith+
  have "\<lfloor>x + 1 / 2\<rfloor> = k"
  proof (rule floor_unique)
    have "real_of_int (2 * k - 1) \<le> real_of_int (b - 1)" using kb(1) by (simp only: of_int_le_iff)
    with lo show "real_of_int k \<le> x + 1 / 2" by simp
    have "real_of_int b \<le> real_of_int (2 * k + 1)" using kb(2) by (simp only: of_int_le_iff)
    with hi show "x + 1 / 2 < real_of_int k + 1" by simp
  qed
  moreover have "0 \<le> k" using b(1) by (simp add: k_def)
  ultimately show ?thesis
    by (simp add: log2_nearest_def round_def x_def [symmetric] k_def b_def m_def)
qed

lemma bitlen_0: "bitlen 0 = 0" by (subst bitlen.simps) simp
lemma bitlen_numeral: "bitlen (numeral w) = 1 + bitlen (numeral w div 2)"
  by (subst bitlen.simps) simp

lemma bitlen_1: "bitlen 1 = 1" by (subst bitlen.simps) (simp add: bitlen_0)

lemma log2_nearest_100: "log2_nearest 100 = 7"
  by (simp add: log2_nearest_bits bitlen_numeral bitlen_0 bitlen_1)

lemma two_not_square: "(m :: int)\<^sup>2 \<noteq> 2"
proof
  assume a: "m\<^sup>2 = 2"
  have "\<bar>m\<bar> \<le> 1 \<or> 2 \<le> \<bar>m\<bar>" by linarith
  then show False
  proof
    assume "\<bar>m\<bar> \<le> 1"
    then have "\<bar>m\<bar>\<^sup>2 \<le> 1\<^sup>2" by (intro power_mono) simp_all
    with a show False by simp
  next
    assume "2 \<le> \<bar>m\<bar>"
    then have "2\<^sup>2 \<le> \<bar>m\<bar>\<^sup>2" by (intro power_mono) simp_all
    with a show False by simp
  qed
qed

lemma odd_power_not_square: "(m :: int)\<^sup>2 \<noteq> 2 ^ (2 * j + 1)"
proof (induction j arbitrary: m)
  case 0
  show ?case using two_not_square [of m] by simp
next
  case (Suc j)
  show ?case
  proof
    assume a: "m\<^sup>2 = 2 ^ (2 * Suc j + 1)"
    then have "even (m\<^sup>2)" by simp
    then have "even m" by simp
    then obtain m' where m': "m = 2 * m'" by (elim evenE)
    from a have "4 * m'\<^sup>2 = 4 * 2 ^ (2 * j + 1)" by (simp add: m' power2_eq_square)
    then have "m'\<^sup>2 = 2 ^ (2 * j + 1)" by simp
    with Suc.IH [of m'] show False by simp
  qed
qed

text \<open>
  The rounding is stable under an error of the quotient: for a size below \<open>2\<^sup>2\<^sup>0\<close>,
  every number within \<open>2\<^sup>-\<^sup>4\<^sup>3\<close> of the real quotient rounds as the real quotient does.
  The square of \<open>size + 1\<close> is an integer and never an odd power of \<open>2\<close>, so it is at
  least \<open>1\<close> away from the odd powers of \<open>2\<close>, where the rounding changes.
\<close>

lemma log2_nearest_stable:
  assumes n: "int n < 2 ^ 20" and q: "\<bar>q - ln (real n + 1) / ln 2\<bar> < 1 / 2 ^ 43"
  shows "max (round q) 0 = log2_nearest n"
proof -
  define m where "m = int n + 1"
  define x where "x = ln (real n + 1) / ln 2"
  define k where "k = round x"
  have m: "1 \<le> m" "m \<le> 2 ^ 20" using n by (simp_all add: m_def)
  have rm: "real_of_int m = real n + 1" by (simp add: m_def)
  have l2: "0 < ln (2 :: real)" "ln (2 :: real) < 1" using ln_2_less_1 by simp_all
  have x0: "0 \<le> x" using l2 by (simp add: x_def)
  have "real_of_int m \<le> real_of_int (2 ^ 20)" using m(2) by (simp only: of_int_le_iff)
  then have "real_of_int m \<le> 2 ^ 20" by simp
  then have "ln (real n + 1) \<le> ln ((2 :: real) ^ 20)"
    unfolding rm by (subst ln_le_cancel_iff) simp_all
  also have "\<dots> = real 20 * ln 2" by (rule ln_realpow)
  finally have x20: "x \<le> 20" using l2 by (simp add: x_def field_simps)
  have k: "real_of_int k \<le> x + 1 / 2" "x + 1 / 2 < real_of_int k + 1"
    unfolding k_def round_def by linarith+
  have "round (0 :: real) \<le> round x" using x0 by (rule round_mono)
  then have k0: "0 \<le> k" by (simp add: k_def)
  have "round x \<le> round (20 :: real)" using x20 by (rule round_mono)
  then have k20: "k \<le> 20" by (simp add: k_def)
  have m2: "ln (real_of_int (m\<^sup>2)) = 2 * x * ln 2"
    using ln_realpow [of "real n + 1" 2] l2 by (simp add: rm x_def)
  have m2pos: "0 < real_of_int (m\<^sup>2)" using m(1) by simp
  have up: "x + 1 / 2 \<le> real_of_int k + 1 - 1 / 2 ^ 42"
  proof -
    define N where "N = nat (2 * k + 1)"
    have N: "real N = 2 * real_of_int k + 1" "N \<le> 41" "0 < N" using k0 k20 by (simp_all add: N_def)
    have gt1: "(1 :: real) < 2 ^ N" using N(3) by (intro one_less_power) simp_all
    then have v1: "1 / 2 ^ N < (1 :: real)" by simp
    have "2 * x * ln 2 < real N * ln 2" using k(2) l2 N(1) by simp
    then have "ln (real_of_int (m\<^sup>2)) < ln ((2 :: real) ^ N)" by (simp only: m2 ln_realpow)
    then have "real_of_int (m\<^sup>2) < 2 ^ N" using m2pos by (subst (asm) ln_less_cancel_iff) simp_all
    then have "real_of_int (m\<^sup>2) < real_of_int (2 ^ N)" by simp
    then have "m\<^sup>2 < 2 ^ N" by (simp only: of_int_less_iff)
    then have "m\<^sup>2 \<le> 2 ^ N - 1" by simp
    then have "real_of_int (m\<^sup>2) \<le> real_of_int (2 ^ N - 1)" by (simp only: of_int_le_iff)
    then have le: "real_of_int (m\<^sup>2) \<le> 2 ^ N - 1" by simp
    define v :: real where "v = 1 / 2 ^ N"
    have v: "0 < v" "v < 1" "(2 :: real) ^ N - 1 = 2 ^ N * (1 - v)"
      using v1 by (simp_all add: v_def field_simps)
    have "(2 :: real) ^ N \<le> 2 ^ 41" using N(2) by (intro power_increasing) simp_all
    then have v41: "1 / 2 ^ 41 \<le> v" unfolding v_def by (intro divide_left_mono) simp_all
    have "ln (real_of_int (m\<^sup>2)) \<le> ln ((2 :: real) ^ N - 1)"
      using le m2pos gt1 by (subst ln_le_cancel_iff) simp_all
    also have "\<dots> = ln ((2 :: real) ^ N) + ln (1 - v)"
      unfolding v(3) by (rule ln_mult_pos) (use v(1,2) in simp_all)
    also have "ln (1 - v) \<le> - v" using ln_le_minus_one [of "1 - v"] v(2) by simp
    finally have "ln (real_of_int (m\<^sup>2)) \<le> ln ((2 :: real) ^ N) + - v" by simp
    then have "2 * x * ln 2 \<le> real N * ln 2 + - v" unfolding m2 ln_realpow .
    moreover have "v * ln 2 \<le> v * 1" using l2 v(1) by (intro mult_left_mono) simp_all
    ultimately have "2 * x * ln 2 \<le> real N * ln 2 - v * ln 2" by linarith
    then have "(2 * x) * ln 2 \<le> (real N - v) * ln 2" by (simp add: algebra_simps)
    then have "2 * x \<le> real N - v" using l2(1) by (simp only: mult_le_cancel_right_pos)
    with v41 N(1) show ?thesis by simp
  qed
  have lo: "real_of_int k + 1 / 2 ^ 42 \<le> x + 1 / 2" if k1: "1 \<le> k"
  proof -
    define j where "j = nat (k - 1)"
    define N where "N = 2 * j + 1"
    have N: "real N = 2 * real_of_int k - 1" "N \<le> 39" using k1 k20 by (simp_all add: N_def j_def)
    have "real N * ln 2 \<le> 2 * x * ln 2" using k(1) l2 N(1) by simp
    then have "ln ((2 :: real) ^ N) \<le> ln (real_of_int (m\<^sup>2))" by (simp only: m2 ln_realpow)
    then have "2 ^ N \<le> real_of_int (m\<^sup>2)" using m2pos by (subst (asm) ln_le_cancel_iff) simp_all
    then have "real_of_int (2 ^ N) \<le> real_of_int (m\<^sup>2)" by simp
    then have "2 ^ N \<le> m\<^sup>2" by (simp only: of_int_le_iff)
    moreover have "m\<^sup>2 \<noteq> 2 ^ N" unfolding N_def by (rule odd_power_not_square)
    ultimately have "2 ^ N + 1 \<le> m\<^sup>2" by simp
    then have "real_of_int (2 ^ N + 1) \<le> real_of_int (m\<^sup>2)" by (simp only: of_int_le_iff)
    then have le: "2 ^ N + 1 \<le> real_of_int (m\<^sup>2)" by simp
    define u :: real where "u = 1 / 2 ^ N"
    have "(2 :: real) ^ 1 \<le> 2 ^ N" by (intro power_increasing) (simp_all add: N_def)
    then have u2: "u \<le> 1 / 2" unfolding u_def by (simp add: field_simps)
    have u: "0 < u" "(2 :: real) ^ N + 1 = 2 ^ N * (1 + u)"
      by (simp_all add: u_def field_simps)
    have "(2 :: real) ^ N \<le> 2 ^ 39" using N(2) by (intro power_increasing) simp_all
    then have u39: "1 / 2 ^ 39 \<le> u" unfolding u_def by (intro divide_left_mono) simp_all
    have "u\<^sup>2 \<le> u * (1 / 2)" unfolding power2_eq_square using u(1) u2 by (intro mult_left_mono) simp_all
    then have "u / 2 \<le> u - u\<^sup>2" by simp
    also have "\<dots> \<le> ln (1 + u)" using u(1) u2 by (intro ln_one_plus_pos_lower_bound) simp_all
    finally have lnu: "u / 2 \<le> ln (1 + u)" .
    have "ln ((2 :: real) ^ N) + ln (1 + u) = ln ((2 :: real) ^ N + 1)"
      unfolding u(2) by (rule ln_mult_pos [symmetric]) (use u(1) in simp_all)
    also have "\<dots> \<le> ln (real_of_int (m\<^sup>2))"
      using le m2pos by (subst ln_le_cancel_iff) (simp_all add: add_pos_pos)
    finally have "ln ((2 :: real) ^ N) + ln (1 + u) \<le> ln (real_of_int (m\<^sup>2))" .
    then have "real N * ln 2 + ln (1 + u) \<le> 2 * x * ln 2" unfolding m2 ln_realpow .
    moreover have "(u / 2) * ln 2 \<le> (u / 2) * 1" using l2 u(1) by (intro mult_left_mono) simp_all
    ultimately have "real N * ln 2 + (u / 2) * ln 2 \<le> (2 * x) * ln 2" using lnu by linarith
    then have "(real N + u / 2) * ln 2 \<le> (2 * x) * ln 2" by (simp only: distrib_right)
    then have "real N + u / 2 \<le> 2 * x" using l2(1) by (simp only: mult_le_cancel_right_pos)
    with u39 N(1) show ?thesis by simp
  qed
  have ln_k: "log2_nearest n = k" using k0 by (simp add: log2_nearest_def x_def k_def)
  from q have qx: "x - 1 / 2 ^ 43 < q" "q < x + 1 / 2 ^ 43" unfolding x_def by linarith+
  have qhi: "q + 1 / 2 < real_of_int k + 1" using up qx(2) by simp
  show ?thesis
  proof (cases "1 \<le> k")
    case True
    from lo [OF True] qx(1) have "real_of_int k \<le> q + 1 / 2" by simp
    with qhi have "\<lfloor>q + 1 / 2\<rfloor> = k" by (intro floor_unique) simp_all
    then show ?thesis using k0 by (simp add: ln_k round_def)
  next
    case False
    with k0 have kz: "k = 0" by simp
    from qhi have "\<lfloor>q + 1 / 2\<rfloor> < 1" unfolding kz by (simp add: floor_less_iff)
    then show ?thesis by (simp add: ln_k kz round_def)
  qed
qed

lemma logsize_stable:
  assumes "logsize n = Some l" and "\<bar>q - ln (real n + 1) / ln 2\<bar> < 1 / 2 ^ 43"
  shows "max (round q) 0 = l"
  using assms log2_nearest_stable [of n q] by (simp add: logsize_def split: if_splits)


lemma logsize_0: "logsize 0 = Some 0"
  by (simp add: logsize_def log2_nearest_0)

lemma logsize_100: "logsize 100 = Some 7"
  by (simp add: logsize_def log2_nearest_100)

subsection \<open>The loop of suchThat\<close>

lemma suchThat_sound:
  assumes "suchThat g pred rng sz = Some out"
  shows "case out of Return x r \<Rightarrow> pred x | _ \<Rightarrow> True"
proof (rule suchThat.raw_induct
    [where P = "\<lambda>g pred rng sz out. case out of Return x r \<Rightarrow> pred x | _ \<Rightarrow> True", OF _ assms])
  fix f :: "'a Generator \<Rightarrow> ('a \<Rightarrow> bool) \<Rightarrow> 'a Generator" and g pred rng sz out
  assume ih: "\<And>g pred rng sz out. f g pred rng sz = Some out \<Longrightarrow>
      (case out of Return x r \<Rightarrow> pred x | _ \<Rightarrow> True)"
    and eq: "(case g rng sz of None \<Rightarrow> None
        | Some (Return output rng') \<Rightarrow>
            if pred output then Some (Return output rng') else f g pred rng' sz
        | Some (Throw e rng') \<Rightarrow> Some (Throw e rng')
        | Some OffModel \<Rightarrow> Some OffModel) = Some out"
  show "case out of Return x r \<Rightarrow> pred x | _ \<Rightarrow> True"
  proof (cases "g rng sz")
    case None
    with eq show ?thesis by simp
  next
    case (Some res)
    show ?thesis
    proof (cases res)
      case (Return y r')
      show ?thesis
      proof (cases "pred y")
        case True
        with eq Some Return show ?thesis by auto
      next
        case False
        with eq Some Return have "f g pred r' sz = Some out" by simp
        from ih [OF this] show ?thesis .
      qed
    next
      case (Throw e r')
      with eq Some show ?thesis by auto
    next
      case OffModel
      with eq Some show ?thesis by auto
    qed
  qed
qed

lemma suchThat_diverges:
  assumes "\<forall>r. \<exists>y r'. g r sz = Some (Return y r') \<and> \<not> pred y"
  shows "suchThat g pred rng sz = None"
proof (rule ccontr)
  assume "suchThat g pred rng sz \<noteq> None"
  then obtain out where out: "suchThat g pred rng sz = Some out" by auto
  have "(\<forall>r. \<exists>y r'. g r sz = Some (Return y r') \<and> \<not> pred y) \<longrightarrow> False"
  proof (rule suchThat.raw_induct
      [where P = "\<lambda>g pred rng sz out. (\<forall>r. \<exists>y r'. g r sz = Some (Return y r') \<and> \<not> pred y) \<longrightarrow> False",
        OF _ out], rule impI)
    fix f :: "'a Generator \<Rightarrow> ('a \<Rightarrow> bool) \<Rightarrow> 'a Generator" and g pred rng sz out
    assume ih: "\<And>g pred rng sz out. f g pred rng sz = Some out \<Longrightarrow>
        (\<forall>r. \<exists>y r'. g r sz = Some (Return y r') \<and> \<not> pred y) \<longrightarrow> False"
      and eq: "(case g rng sz of None \<Rightarrow> None
          | Some (Return output rng') \<Rightarrow>
              if pred output then Some (Return output rng') else f g pred rng' sz
          | Some (Throw e rng') \<Rightarrow> Some (Throw e rng')
          | Some OffModel \<Rightarrow> Some OffModel) = Some out"
      and never: "\<forall>r. \<exists>y r'. g r sz = Some (Return y r') \<and> \<not> pred y"
    from never obtain y r' where "g rng sz = Some (Return y r')" "\<not> pred y" by blast
    with eq have "f g pred r' sz = Some out" by simp
    from ih [OF this] never show False by blast
  qed
  with assms show False by blast
qed

subsection \<open>Loops and their invariants\<close>

lemma foldM_invariant:
  assumes step: "\<And>pre x s rng. I pre s \<Longrightarrow> x \<in> set xs \<Longrightarrow>
      \<exists>s' rng'. body s x rng = Some (Return s' rng') \<and> I (pre @ [x]) s'"
    and init: "I pre s"
  shows "\<exists>s' rng'. foldM body xs s rng = Some (Return s' rng') \<and> I (pre @ xs) s'"
  using step init
proof (induction xs arbitrary: pre s rng)
  case Nil
  then show ?case by simp
next
  case (Cons x xs)
  from Cons.prems(1) [OF Cons.prems(2), of x rng]
  obtain s1 rng1 where s1: "body s x rng = Some (Return s1 rng1)" "I (pre @ [x]) s1" by auto
  have "\<exists>s' rng'. foldM body xs s1 rng1 = Some (Return s' rng') \<and> I ((pre @ [x]) @ xs) s'"
  proof (rule Cons.IH [OF _ s1(2)])
    fix pre' y s' r
    assume "I pre' s'" "y \<in> set xs"
    then show "\<exists>s'' rng'. body s' y r = Some (Return s'' rng') \<and> I (pre' @ [y]) s''"
      using Cons.prems(1) [of pre' s' y r] by simp
  qed
  then show ?case using s1(1) by (simp add: andThen_def)
qed

lemma swap_step_shuffled:
  assumes inv: "shuffled out h h'" and i: "i < length (cells h out) - 1"
  shows "\<exists>h'' rng'. swap_step out i h' rng = Some (Return h'' rng') \<and> shuffled out h h''"
proof -
  let ?xs = "cells h' out"
  have len: "length ?xs = length (cells h out)" using inv by (simp add: shuffled_def)
  with i have "0 < int (length ?xs) - int i" by simp
  from interval_draw [OF this, of rng None]
  obtain j where j: "interval 0 (int (length ?xs) - int i) rng None
      = Some (Return (Num j) (snd (randomInt32 rng)))" "0 \<le> j" "j < int (length ?xs) - int i"
    by auto
  define k where "k = nat (int i + j)"
  have k: "k < length ?xs" "i < length ?xs" using j i len by (simp_all add: k_def)
  define h'' where "h'' = h'\<lparr>cells := (cells h')(out := ?xs[i := ?xs ! k, k := ?xs ! i])\<rparr>"
  have "swap_step out i h' rng = Some (Return h'' (snd (randomInt32 rng)))"
    using j by (simp add: swap_step_def andThen_def Let_def k_def h''_def)
  moreover have "shuffled out h h''"
    using inv mset_swap [OF k(1) k(2)] by (simp add: shuffled_def h''_def)
  ultimately show ?thesis by blast
qed

lemma shuffle_result:
  "\<exists>h' rng'. shuffle arr h rng sz = Some (Return (next_ref h, h') rng') \<and>
     length (cells h' (next_ref h)) = length (cells h arr) \<and>
     mset (cells h' (next_ref h)) = mset (cells h arr) \<and>
     (\<forall>a. a \<noteq> next_ref h \<longrightarrow> cells h' a = cells h a)"
proof -
  define out where "out = next_ref h"
  define h1 where "h1 = h\<lparr>cells := (cells h)(out := cells h arr), next_ref := Suc out\<rparr>"
  have sl: "slice arr h = (out, h1)" by (simp add: slice_def out_def h1_def)
  have c1: "cells h1 out = cells h arr" "\<And>a. a \<noteq> out \<Longrightarrow> cells h1 a = cells h a"
    by (simp_all add: h1_def)
  have "\<exists>h' rng'. foldM (\<lambda>h i rng. swap_step out i h rng) [0..<length (cells h1 out) - 1] h1 rng
      = Some (Return h' rng') \<and> shuffled out h1 h'"
  proof (rule foldM_invariant [where I = "\<lambda>pre. shuffled out h1" and pre = "[]"])
    show "shuffled out h1 h1" by (simp add: shuffled_def)
  next
    fix pre :: "nat list" and i h' r
    assume "shuffled out h1 h'" "i \<in> set [0..<length (cells h1 out) - 1]"
    then show "\<exists>s' rng'. swap_step out i h' r = Some (Return s' rng') \<and> shuffled out h1 s'"
      using swap_step_shuffled [of out h1 h' i r] by simp
  qed
  then obtain h' rng' where h': "foldM (\<lambda>h i rng. swap_step out i h rng)
      [0..<length (cells h1 out) - 1] h1 rng = Some (Return h' rng')" "shuffled out h1 h'"
    by blast
  have "shuffle arr h rng sz = Some (Return (out, h') rng')"
    using sl h'(1) by (simp add: shuffle_def andThen_def)
  then show ?thesis using h'(2) c1 unfolding out_def [symmetric] by (auto simp: shuffled_def)
qed

lemma fill_total:
  assumes total: "\<And>r s. \<exists>a r'. gen r s = Some (Return a r')"
    and k: "0 \<le> k" and len: "length out = nat k"
  shows "\<exists>ys rng'. fill gen s (Num k) out rng = Some (Return ys rng') \<and>
     length ys = nat k \<and> None \<notin> set ys"
proof -
  let ?body = "\<lambda>output i rng. andThen (gen rng (Some s))
      (\<lambda>a rng'. Some (Return (output[i := Some a]) rng'))"
  define I where "I = (\<lambda>pre (ys :: 'a option list). length ys = nat k \<and> (\<forall>i \<in> set pre. ys ! i \<noteq> None))"
  have "\<exists>ys rng'. foldM ?body [0..<nat k] out rng = Some (Return ys rng') \<and> I ([] @ [0..<nat k]) ys"
  proof (rule foldM_invariant)
    show "I [] out" by (simp add: I_def len)
  next
    fix pre x and ys :: "'a option list" and r
    assume inv: "I pre ys" and x: "x \<in> set [0..<nat k]"
    from total [of r "Some s"] obtain a r' where a: "gen r (Some s) = Some (Return a r')" by blast
    have "I (pre @ [x]) (ys[x := Some a])"
      using inv x by (auto simp: I_def nth_list_update)
    then show "\<exists>s' rng'. ?body ys x r = Some (Return s' rng') \<and> I (pre @ [x]) s'"
      using a by (simp add: andThen_def)
  qed
  then obtain ys rng' where r: "foldM ?body [0..<nat k] out rng = Some (Return ys rng')"
    "length ys = nat k" "\<forall>i < nat k. ys ! i \<noteq> None" by (auto simp: I_def)
  from r(2,3) have "None \<notin> set ys" by (auto simp: in_set_conv_nth)
  with r(1,2) show ?thesis by (simp add: fill_def)
qed

lemma recursive_loop_returns:
  "\<exists>gen rng'. recursive_loop genZ genS n rng = Some (Return gen rng')"
proof (induction n arbitrary: rng)
  case 0
  show ?case by simp
next
  case (Suc n)
  have "(0::int) < 3" by simp
  from interval_draw [OF this, of rng None]
  obtain c where c: "interval 0 3 rng None = Some (Return (Num c) (snd (randomInt32 rng)))" by blast
  from Suc [of "snd (randomInt32 rng)"] obtain gen rng' where
    "recursive_loop genZ genS n (snd (randomInt32 rng)) = Some (Return gen rng')" by blast
  with c show ?case by (simp add: andThen_def)
qed

subsection \<open>Buckets\<close>

lemma foldl_plus: "foldl (\<lambda>acc x. acc + x) a fs = a + sum_list (fs :: int list)"
  by (induction fs arbitrary: a) simp_all

lemma pick_in_range:
  "acc \<le> c \<Longrightarrow> c < acc + sum_list fs \<Longrightarrow> \<exists>k. pick fs i acc (Num c) = Some k \<and> i \<le> k \<and> k < i + length fs"
proof (induction fs arbitrary: i acc)
  case Nil
  then show ?case by simp
next
  case (Cons f fs)
  show ?case
  proof (cases "c < acc + f")
    case True
    then show ?thesis by simp
  next
    case False
    then have "acc + f \<le> c" by simp
    moreover have "c < (acc + f) + sum_list fs" using Cons.prems(2) by simp
    ultimately obtain k where "pick fs (Suc i) (acc + f) (Num c) = Some k" "Suc i \<le> k" "k < Suc i + length fs"
      using Cons.IH [of "acc + f" "Suc i"] by blast
    with False show ?thesis by (simp add: Let_def)
  qed
qed

lemma assigned_snoc:
  assumes "length cs = length pre" and "length out = n" and "i < n"
    and "out = map (assigned pre cs) [0..<n]"
  shows "out[i := out ! i @ [x]] = map (assigned (pre @ [x]) (cs @ [i])) [0..<n]"
proof (rule nth_equalityI)
  show "length (out[i := out ! i @ [x]]) = length (map (assigned (pre @ [x]) (cs @ [i])) [0..<n])"
    using assms by simp
next
  fix b assume "b < length (out[i := out ! i @ [x]])"
  then have b: "b < n" using assms by simp
  have z: "zip (pre @ [x]) (cs @ [i]) = zip pre cs @ [(x, i)]" using assms(1) by simp
  show "out[i := out ! i @ [x]] ! b = map (assigned (pre @ [x]) (cs @ [i])) [0..<n] ! b"
  proof (cases "b = i")
    case True
    then show ?thesis using assms b by (simp add: assigned_def z)
  next
    case False
    then show ?thesis using assms b by (simp add: assigned_def z)
  qed
qed

lemma sum_list_no_indicator:
  "n \<le> i \<Longrightarrow> sum_list (map (\<lambda>b. if i = b then A else {#}) [0..<n]) = ({#} :: 'a multiset)"
  by (induction n) auto

lemma sum_list_indicator:
  "i < n \<Longrightarrow> sum_list (map (\<lambda>b. if i = b then A else {#}) [0..<n]) = (A :: 'a multiset)"
proof (induction n)
  case 0
  then show ?case by simp
next
  case (Suc n)
  show ?case
  proof (cases "i = n")
    case True
    then show ?thesis by (simp add: sum_list_no_indicator)
  next
    case False
    with Suc have "i < n" by simp
    with Suc.IH False show ?thesis by simp
  qed
qed

lemma mset_assigned_Cons:
  "mset (assigned (x # xs) (c # cs) b) = (if c = b then {#x#} else {#}) + mset (assigned xs cs b)"
  by (simp add: assigned_def)

lemma mset_assigned:
  assumes "length cs = length inputs" and "\<forall>c \<in> set cs. c < n"
  shows "mset (concat (map (assigned inputs cs) [0..<n])) = mset inputs"
  using assms
proof (induction cs inputs rule: list_induct2)
  case Nil
  show ?case by (induction n) (simp_all add: assigned_def)
next
  case (Cons c cs x xs)
  have "mset (concat (map (assigned (x # xs) (c # cs)) [0..<n]))
      = sum_list (map (\<lambda>b. mset (assigned (x # xs) (c # cs) b)) [0..<n])"
    by (simp add: mset_concat comp_def)
  also have "\<dots> = sum_list (map (\<lambda>b. (if c = b then {#x#} else {#}) + mset (assigned xs cs b)) [0..<n])"
    by (simp only: mset_assigned_Cons)
  also have "\<dots> = sum_list (map (\<lambda>b. if c = b then {#x#} else {#}) [0..<n])
      + sum_list (map (\<lambda>b. mset (assigned xs cs b)) [0..<n])"
    by (simp only: sum_list_addf)
  also have "\<dots> = {#x#} + mset (concat (map (assigned xs cs) [0..<n]))"
    using Cons.prems by (simp add: sum_list_indicator mset_concat comp_def)
  finally show ?case using Cons by simp
qed

lemma subseq_assigned: "length cs = length inputs \<Longrightarrow> subseq (assigned inputs cs b) inputs"
proof -
  assume l: "length cs = length inputs"
  have "subseq (map fst (filter (\<lambda>p. snd p = b) (zip inputs cs))) (map fst (zip inputs cs))"
    by (rule subseq_map) simp
  then show ?thesis using l by (simp add: assigned_def)
qed

lemma partitions_weights:
  assumes len: "int (length freq) \<le> max_args" "max_args < 2 ^ 32" and pos: "0 < sum_list freq"
  shows "\<exists>cs buckets rng'.
     draw_partitions max_args inputs (Inr freq) rng sz = Inr (Some (Return buckets rng')) \<and>
     length cs = length inputs \<and> (\<forall>c \<in> set cs. c < length freq) \<and>
     buckets = map (assigned inputs cs) [0..<length freq]"
proof -
  let ?n = "length freq"
  let ?body = "\<lambda>output input rng.
      andThen (interval 0 (sum_list freq) rng None)
        (\<lambda>choice rng'. case pick freq 0 0 choice of
             Some i \<Rightarrow> Some (Return (output[i := output ! i @ [input]]) rng')
           | None \<Rightarrow> Some (Return output rng'))"
  define I where "I = (\<lambda>pre (out :: 'a list list).
      \<exists>cs. length cs = length pre \<and> (\<forall>c \<in> set cs. c < ?n) \<and> out = map (assigned pre cs) [0..<?n])"
  have "int ?n < 2 ^ 32" "int ?n \<le> max_args" using len by simp_all
  then have dp: "draw_partitions max_args inputs (Inr freq) rng sz
      = Inr (foldM ?body inputs (replicate ?n []) rng)"
    by (simp add: draw_partitions_def partitions_def apply_Array_def Let_def foldl_plus not_le
        map_replicate_const)
  have "\<exists>out rng'. foldM ?body inputs (replicate ?n []) rng = Some (Return out rng') \<and> I ([] @ inputs) out"
  proof (rule foldM_invariant)
    show "I [] (replicate ?n [])"
      unfolding I_def by (auto simp: assigned_def intro!: nth_equalityI)
  next
    fix pre x and out :: "'a list list" and r
    assume "I pre out"
    then obtain cs where cs: "length cs = length pre" "\<forall>c \<in> set cs. c < ?n"
      "out = map (assigned pre cs) [0..<?n]" unfolding I_def by blast
    from interval_draw [OF pos, of r None]
    obtain c where c: "interval 0 (sum_list freq) r None = Some (Return (Num c) (snd (randomInt32 r)))"
      "0 \<le> c" "c < sum_list freq" by blast
    from pick_in_range [of 0 c freq 0] c
    obtain i where i: "pick freq 0 0 (Num c) = Some i" "i < ?n" by auto
    have "?body out x r = Some (Return (out[i := out ! i @ [x]]) (snd (randomInt32 r)))"
      using c(1) i(1) by (simp add: andThen_def)
    moreover have "I (pre @ [x]) (out[i := out ! i @ [x]])"
      unfolding I_def
    proof (intro exI [of _ "cs @ [i]"] conjI)
      show "length (cs @ [i]) = length (pre @ [x])" using cs(1) by simp
      show "\<forall>c \<in> set (cs @ [i]). c < ?n" using cs(2) i(2) by simp
      show "out[i := out ! i @ [x]] = map (assigned (pre @ [x]) (cs @ [i])) [0..<?n]"
        using assigned_snoc [OF cs(1) _ i(2) cs(3)] cs(3) by simp
    qed
    ultimately show "\<exists>s' rng'. ?body out x r = Some (Return s' rng') \<and> I (pre @ [x]) s'"
      by blast
  qed
  then show ?thesis unfolding dp I_def by auto
qed

lemma partitions_count:
  assumes "int n \<le> max_args" "max_args < 2 ^ 32"
  shows "draw_partitions max_args inputs (Inl n) rng sz
    = draw_partitions max_args inputs (Inr (replicate n 100)) rng sz"
proof -
  have "int n < 2 ^ 32" "int n \<le> max_args" using assms by simp_all
  then show ?thesis
    by (simp add: draw_partitions_def partitions_def apply_Array_def map_replicate_const)
qed

lemma partitions_refused:
  "max_args < int n \<Longrightarrow> draw_partitions max_args inputs (Inl n) rng sz = Inl RangeError"
  "max_args < int (length freq) \<Longrightarrow>
     draw_partitions max_args inputs (Inr freq) rng sz = Inr (Some (Throw RangeError rng))"
  by (simp_all add: draw_partitions_def partitions_def apply_Array_def)

subsection \<open>The library in the ambient source\<close>

























lemma foldM_map:
  "foldM (\<lambda>s x. body s (f x)) xs s rng = foldM body (map f xs) s rng"
  by (induction xs arbitrary: s rng) simp_all














lemma generate_w_lift:
  "generate_w (lift h) (Some rng) sz w = put w (generate h (Some rng) sz e)"
  "generate_w (lift h) None sz w
     = put (snd (Math_random w)) (generate h None sz (fst (Math_random w)))"
  by (simp_all add: generate_w_def generate_def lift_def makeRng_w_def makeRng_def Let_def split: prod.split)



subsection \<open>The loops of the shrink strategies\<close>

lemma nat_loop_spec:
  "0 < i \<Longrightarrow> \<exists>cs. nat_loop i out = out @ cs \<and> cs \<noteq> [] \<and> (\<forall>c \<in> set cs. 0 \<le> c \<and> c < i) \<and>
     sorted_wrt (>) cs \<and> last cs = 0"
proof (induction i out rule: nat_loop.induct)
  case (1 i out)
  show ?case
  proof (cases "0 < i div 2")
    case True
    from "1.IH" [OF refl refl True True]
    obtain cs where cs: "nat_loop (i div 2) (out @ [i div 2]) = (out @ [i div 2]) @ cs" "cs \<noteq> []"
      "\<forall>c \<in> set cs. 0 \<le> c \<and> c < i div 2" "sorted_wrt (>) cs" "last cs = 0" by blast
    have lt: "i div 2 < i" using "1.prems" by linarith
    have "nat_loop i out = out @ (i div 2 # cs)"
      using True cs(1) by (subst nat_loop.simps) (simp add: Let_def)
    moreover have "\<forall>c \<in> set (i div 2 # cs). 0 \<le> c \<and> c < i" using cs(3) lt True by auto
    moreover have "sorted_wrt (>) (i div 2 # cs)" using cs(3,4) by auto
    ultimately show ?thesis using cs(2,5) by (intro exI [of _ "i div 2 # cs"]) simp
  next
    case False
    with "1.prems" have i: "i div 2 = 0" by linarith
    have "nat_loop i out = out @ [0]" using i by (subst nat_loop.simps) (simp add: Let_def)
    then show ?thesis using "1.prems" by (intro exI [of _ "[0]"]) simp
  qed
qed

lemma string_loop_spec:
  "0 < i \<Longrightarrow> i < 2 ^ 31 \<Longrightarrow> i \<le> int (length x) \<Longrightarrow>
   \<exists>cs. string_loop x i out = out @ cs \<and> cs \<noteq> [] \<and>
     (\<forall>c \<in> set cs. prefix c x \<and> int (length c) < i) \<and>
     sorted_wrt (\<lambda>a b. length b < length a) cs \<and> last cs = []"
proof (induction x i out rule: string_loop.induct)
  case (1 x i out)
  have ti: "toInt32 i = i" using "1.prems" by (simp add: toInt32_id)
  have lt: "i div 2 < i" using "1.prems" by linarith
  have len: "int (length (substr0 x (i div 2))) = i div 2"
    using "1.prems" lt by (simp add: substr0_def)
  have pre: "prefix (substr0 x (i div 2)) x" by (simp add: substr0_def take_is_prefix)
  show ?case
  proof (cases "0 < i div 2")
    case True
    have "\<exists>cs. string_loop x (i div 2) (out @ [substr0 x (i div 2)]) = (out @ [substr0 x (i div 2)]) @ cs \<and>
        cs \<noteq> [] \<and> (\<forall>c \<in> set cs. prefix c x \<and> int (length c) < i div 2) \<and>
        sorted_wrt (\<lambda>a b. length b < length a) cs \<and> last cs = []"
      using "1.IH" [of "i div 2" "out @ [substr0 x (i div 2)]"] True "1.prems" lt ti by simp
    then obtain cs where cs:
      "string_loop x (i div 2) (out @ [substr0 x (i div 2)]) = (out @ [substr0 x (i div 2)]) @ cs"
      "cs \<noteq> []" "\<forall>c \<in> set cs. prefix c x \<and> int (length c) < i div 2"
      "sorted_wrt (\<lambda>a b. length b < length a) cs" "last cs = []" by blast
    let ?cs = "substr0 x (i div 2) # cs"
    have "string_loop x i out = out @ ?cs"
      using True cs(1) ti by (subst string_loop.simps) (simp add: Let_def)
    moreover have "\<forall>c \<in> set ?cs. prefix c x \<and> int (length c) < i"
      using cs(3) lt len pre by auto
    moreover have "sorted_wrt (\<lambda>a b. length b < length a) ?cs"
      using cs(3,4) len by auto
    ultimately show ?thesis using cs(2,5) by (intro exI [of _ ?cs]) simp
  next
    case False
    with "1.prems" have i: "i div 2 = 0" by linarith
    have "string_loop x i out = out @ [[]]"
      using i ti by (subst string_loop.simps) (simp add: Let_def substr0_def)
    then show ?thesis using "1.prems" by (intro exI [of _ "[[]]"]) simp
  qed
qed

lemma nestring_loop_spec:
  "1 < i \<Longrightarrow> i < 2 ^ 31 \<Longrightarrow> i \<le> int (length x) \<Longrightarrow>
   \<exists>cs. nestring_loop x i out = out @ cs \<and> cs \<noteq> [] \<and>
     (\<forall>c \<in> set cs. prefix c x \<and> 1 \<le> length c \<and> int (length c) < i) \<and>
     sorted_wrt (\<lambda>a b. length b < length a) cs \<and> length (last cs) = 1"
proof (induction x i out rule: nestring_loop.induct)
  case (1 x i out)
  have ti: "toInt32 i = i" using "1.prems" by (simp add: toInt32_id)
  have lt: "i div 2 < i" "1 \<le> i div 2" using "1.prems" by linarith+
  have len: "int (length (substr0 x (i div 2))) = i div 2"
    using "1.prems" lt by (simp add: substr0_def)
  then have len1: "1 \<le> length (substr0 x (i div 2))" using lt(2) by linarith
  have pre: "prefix (substr0 x (i div 2)) x" by (simp add: substr0_def take_is_prefix)
  show ?case
  proof (cases "1 < i div 2")
    case True
    have "\<exists>cs. nestring_loop x (i div 2) (out @ [substr0 x (i div 2)]) = (out @ [substr0 x (i div 2)]) @ cs \<and>
        cs \<noteq> [] \<and> (\<forall>c \<in> set cs. prefix c x \<and> 1 \<le> length c \<and> int (length c) < i div 2) \<and>
        sorted_wrt (\<lambda>a b. length b < length a) cs \<and> length (last cs) = 1"
      using "1.IH" [of "i div 2" "out @ [substr0 x (i div 2)]"] True "1.prems" lt ti by simp
    then obtain cs where cs:
      "nestring_loop x (i div 2) (out @ [substr0 x (i div 2)]) = (out @ [substr0 x (i div 2)]) @ cs"
      "cs \<noteq> []" "\<forall>c \<in> set cs. prefix c x \<and> 1 \<le> length c \<and> int (length c) < i div 2"
      "sorted_wrt (\<lambda>a b. length b < length a) cs" "length (last cs) = 1" by blast
    let ?cs = "substr0 x (i div 2) # cs"
    have "nestring_loop x i out = out @ ?cs"
      using True cs(1) ti by (subst nestring_loop.simps) (simp add: Let_def)
    moreover have "\<forall>c \<in> set ?cs. prefix c x \<and> 1 \<le> length c \<and> int (length c) < i"
      using cs(3) lt len len1 pre by auto
    moreover have "sorted_wrt (\<lambda>a b. length b < length a) ?cs"
      using cs(3,4) len by auto
    ultimately show ?thesis using cs(2,5) by (intro exI [of _ ?cs]) simp
  next
    case False
    with lt have i: "i div 2 = 1" by linarith
    let ?cs = "[substr0 x (i div 2)]"
    have "nestring_loop x i out = out @ ?cs"
      using i ti by (subst nestring_loop.simps) (simp add: Let_def)
    moreover have "length (substr0 x (i div 2)) = 1" using len i by simp
    ultimately show ?thesis using pre lt len by (intro exI [of _ ?cs]) simp
  qed
qed

section \<open>The claims\<close>



text \<open>
  Claim C2 (range). For integers \<open>mn < mx\<close> in the range where the arithmetic of doubles
  is exact (\<open>mn\<close>, \<open>mx\<close> and \<open>mx - mn\<close> of magnitude at most \<open>2\<^sup>5\<^sup>3\<close>), every state and
  every size, \<^verbatim>\<open>interval(mn, mx).generate\<close> returns an integer \<open>x\<close> with
  \<open>mn \<le> x < mx\<close>. Both branches are covered: the remainder for a magnitude below
  \<open>2\<^sup>3\<^sup>2\<close>, the rounded product with the float above.
\<close>

theorem interval_range:
  assumes "mn < mx" and "\<bar>mn\<bar> \<le> 2 ^ 53" and "\<bar>mx\<bar> \<le> 2 ^ 53" and "mx - mn \<le> 2 ^ 53"
  shows "\<exists>x rng'. interval mn mx rng sz = Some (Return (Num x) rng') \<and> mn \<le> x \<and> x < mx"
  using interval_draw [OF assms(1), of rng sz] by blast

theorem interval_range_witness:
  "((3::int) < 10 \<and> \<bar>3::int\<bar> \<le> 2 ^ 53 \<and> \<bar>10::int\<bar> \<le> 2 ^ 53 \<and> (10::int) - 3 \<le> 2 ^ 53 \<and>
    (\<exists>x rng'. interval 3 10 (makeRng (Some 42) 0) None = Some (Return (Num x) rng') \<and>
       3 \<le> x \<and> x < 10)) \<and>
   ((0::int) < 2 ^ 40 \<and> \<bar>0::int\<bar> \<le> 2 ^ 53 \<and> \<bar>2 ^ 40 :: int\<bar> \<le> 2 ^ 53 \<and> (2 ^ 40 :: int) - 0 \<le> 2 ^ 53 \<and>
    (\<exists>x rng'. interval 0 (2 ^ 40) (makeRng (Some 42) 0) None = Some (Return (Num x) rng') \<and>
       0 \<le> x \<and> x < 2 ^ 40))"
  using interval_range [of 3 10 "makeRng (Some 42) 0" None]
    interval_range [of 0 "2 ^ 40" "makeRng (Some 42) 0" None]
  by simp

text \<open>
  Claim C3 (bounded retries of \<^verbatim>\<open>suchThat\<close>) fails: the generator that always draws \<open>0\<close>,
  filtered by the predicate \<^verbatim>\<open>x => 1 === x\<close>, does not return; no attempt is the last and
  no exhaustion failure is reported.
\<close>

theorem suchThat_never_returns:
  "suchThat (of_gen (0 :: nat)) ((=) 1) (makeRng (Some 0) 0) None = None"
  by (rule suchThat_diverges) (simp add: of_gen_def)

text \<open>
  Claim C3 as amended. \<^verbatim>\<open>g.suchThat(pred).generate\<close> redraws on the one state with no
  bound on the number of attempts and no exhaustion failure: a draw that satisfies
  \<open>pred\<close> is returned, a draw that does not is followed by another attempt from the state
  it left, and when every draw of \<open>g\<close> fails \<open>pred\<close> the call never returns. A value it
  returns satisfies \<open>pred\<close>.
\<close>

theorem suchThat_unbounded:
  "(suchThat g pred rng sz = Some (Return x rng') \<longrightarrow> pred x) \<and>
   (g rng sz = Some (Return x rng') \<and> pred x \<longrightarrow>
      suchThat g pred rng sz = Some (Return x rng')) \<and>
   (g rng sz = Some (Return x rng') \<and> \<not> pred x \<longrightarrow>
      suchThat g pred rng sz = suchThat g pred rng' sz) \<and>
   ((\<forall>r. \<exists>y r'. g r sz = Some (Return y r') \<and> \<not> pred y) \<longrightarrow> suchThat g pred rng sz = None)"
proof (intro conjI impI)
  assume "suchThat g pred rng sz = Some (Return x rng')"
  from suchThat_sound [OF this] show "pred x" by simp
next
  assume "g rng sz = Some (Return x rng') \<and> pred x"
  then show "suchThat g pred rng sz = Some (Return x rng')"
    by (subst suchThat.simps) simp
next
  assume "g rng sz = Some (Return x rng') \<and> \<not> pred x"
  then show "suchThat g pred rng sz = suchThat g pred rng' sz"
    by (subst suchThat.simps) simp
next
  assume "\<forall>r. \<exists>y r'. g r sz = Some (Return y r') \<and> \<not> pred y"
  then show "suchThat g pred rng sz = None" by (rule suchThat_diverges)
qed

theorem suchThat_unbounded_witness:
  "suchThat (of_gen (1 :: nat)) (\<lambda>x. x = 1) (makeRng (Some 42) 0) None
     = Some (Return 1 (makeRng (Some 42) 0)) \<and>
   suchThat (of_gen (1 :: nat)) (\<lambda>x. x = 2) (makeRng (Some 42) 0) None = None"
  using suchThat_unbounded [of "of_gen (1 :: nat)" "\<lambda>x. x = 1" "makeRng (Some 42) 0" None 1
      "makeRng (Some 42) 0"]
    suchThat_unbounded [of "of_gen (1 :: nat)" "\<lambda>x. x = 2" "makeRng (Some 42) 0" None 1
      "makeRng (Some 42) 0"]
  by (simp add: of_gen_def)

text \<open>
  Claim C4 (\<^verbatim>\<open>elements\<close> of an empty list fails with an error) fails: nothing is thrown,
  and the draw returns \<^verbatim>\<open>undefined\<close>.
\<close>

theorem elements_empty_undefined:
  "elements ([] :: nat list) (makeRng (Some 0) 0) None =
     Some (Return None (snd (randomInt32 (makeRng (Some 0) 0))))"
  by (simp add: elements_def interval_empty andThen_def element_at_def)

text \<open>
  Claim C4 as amended. \<^verbatim>\<open>elements(list)\<close> of an empty list raises no error, neither
  when the generator is built nor in a draw: the draw advances the state once and
  returns \<^verbatim>\<open>undefined\<close>. For every non-empty list, every state and every size the draw
  returns one of the elements of the list.
\<close>

theorem elements_draw:
  "(elems = [] \<longrightarrow> elements elems rng sz = Some (Return None (snd (randomInt32 rng)))) \<and>
   (elems \<noteq> [] \<longrightarrow> (\<exists>x rng'. elements elems rng sz = Some (Return (Some x) rng') \<and> x \<in> set elems))"
proof (intro conjI impI)
  assume "elems = []"
  then show "elements elems rng sz = Some (Return None (snd (randomInt32 rng)))"
    by (simp add: elements_def interval_empty andThen_def element_at_def)
next
  assume "elems \<noteq> []"
  then have "0 < int (length elems)" by simp
  from interval_draw [OF this, of rng None]
  obtain k where k: "interval 0 (int (length elems)) rng None = Some (Return (Num k) (snd (randomInt32 rng)))"
    "0 \<le> k" "k < int (length elems)" by blast
  then have "elements elems rng sz = Some (Return (Some (elems ! nat k)) (snd (randomInt32 rng)))"
    by (simp add: elements_def andThen_def element_at_def)
  moreover have "elems ! nat k \<in> set elems" using k by simp
  ultimately show "\<exists>x rng'. elements elems rng sz = Some (Return (Some x) rng') \<and> x \<in> set elems"
    by blast
qed

theorem elements_draw_witness:
  "elements ([] :: nat list) (makeRng (Some 42) 0) None
     = Some (Return None (snd (randomInt32 (makeRng (Some 42) 0)))) \<and>
   (\<exists>x rng'. elements [1, 2, 3 :: nat] (makeRng (Some 42) 0) None = Some (Return (Some x) rng') \<and>
      x \<in> set [1, 2, 3])"
  using elements_draw [of "[] :: nat list" "makeRng (Some 42) 0" None]
    elements_draw [of "[1, 2, 3 :: nat]" "makeRng (Some 42) 0" None]
  by simp

text \<open>
  Claim C5 (lengths of \<^verbatim>\<open>array\<close> and \<^verbatim>\<open>nearray\<close>), at the size where the code breaks it.
  For size \<open>0\<close>, \<open>logsize\<close> is \<open>0\<close>, the interval of lengths is empty, its draw is NaN and
  \<^verbatim>\<open>new Array(NaN)\<close> throws a \<^verbatim>\<open>RangeError\<close>: neither generator returns an array, whatever
  the element generator.
\<close>

theorem array_size_zero_throws:
  "array gen rng (Some 0) = Some (Throw RangeError (snd (randomInt32 rng))) \<and>
   nearray gen rng (Some 0) = Some (Throw RangeError (snd (randomInt32 rng)))"
  by (simp add: array_def nearray_def logsize_0 interval_empty andThen_def new_Array_def)

text \<open>
  Claim C6 (permutation). For every array, the empty and the singleton ones included,
  and every state, \<^verbatim>\<open>shuffle(xs).generate\<close> returns an array of the same length and with
  the same multiset of elements as \<open>xs\<close>.
\<close>

theorem shuffle_permutation:
  "\<exists>output h' rng'. shuffle arr h rng sz = Some (Return (output, h') rng') \<and>
     length (cells h' output) = length (cells h arr) \<and>
     mset (cells h' output) = mset (cells h arr)"
  using shuffle_result [of arr h rng sz] by blast

text \<open>
  Claim C7 (partition integrity) fails for a bucket count of \<open>0\<close>: there is no bucket,
  the choice is drawn from an empty interval, and the input is dropped.
\<close>

theorem partitions_zero_buckets:
  "draw_partitions 65535 [1 :: nat] (Inl 0) (makeRng (Some 0) 0) None
     = Inr (Some (Return [] (snd (randomInt32 (makeRng (Some 0) 0))))) \<and>
   mset (concat ([] :: nat list list)) \<noteq> mset [1]"
  by (simp add: draw_partitions_def partitions_def apply_Array_def interval_empty andThen_def)

text \<open>
  Claim C7 as amended. On an engine that accepts \<open>max_args\<close> arguments in a call
  (fewer than \<open>2\<^sup>3\<^sup>2\<close>): for every input list, every state, and every bucket count from
  \<open>1\<close> to \<open>max_args\<close> or every non-empty list of at most \<open>max_args\<close> positive integer
  weights of sum at most \<open>2\<^sup>5\<^sup>3\<close>, the draw returns one bucket for each count or weight;
  each input is placed in exactly one bucket (\<open>cs\<close> gives the bucket of each input), the
  buckets together hold the multiset of the inputs, and each bucket keeps the order of
  the inputs.
\<close>

theorem partitions_integrity:
  assumes "max_args < 2 ^ 32"
    and "case countOrFreq of
             Inl n \<Rightarrow> 0 < n \<and> int n \<le> max_args
           | Inr freq \<Rightarrow> freq \<noteq> [] \<and> int (length freq) \<le> max_args \<and> (\<forall>w \<in> set freq. 0 < w) \<and>
               sum_list freq \<le> 2 ^ 53"
  shows "\<exists>cs buckets rng'.
     draw_partitions max_args inputs countOrFreq rng sz = Inr (Some (Return buckets rng')) \<and>
     length buckets = (case countOrFreq of Inl n \<Rightarrow> n | Inr freq \<Rightarrow> length freq) \<and>
     length cs = length inputs \<and> (\<forall>c \<in> set cs. c < length buckets) \<and>
     buckets = map (assigned inputs cs) [0..<length buckets] \<and>
     mset (concat buckets) = mset inputs \<and>
     (\<forall>b \<in> set buckets. subseq b inputs)"
proof -
  define freq where
    "freq = (case countOrFreq of Inl n \<Rightarrow> replicate n 100 | Inr fr \<Rightarrow> fr)"
  have dp: "draw_partitions max_args inputs countOrFreq rng sz
      = draw_partitions max_args inputs (Inr freq) rng sz"
    using assms by (cases countOrFreq) (simp_all add: freq_def partitions_count)
  have n: "length freq = (case countOrFreq of Inl n \<Rightarrow> n | Inr fr \<Rightarrow> length fr)"
    by (cases countOrFreq) (simp_all add: freq_def)
  have len: "int (length freq) \<le> max_args"
    using assms(2) by (cases countOrFreq) (simp_all add: freq_def)
  have pos: "0 < sum_list freq"
  proof (cases countOrFreq)
    case (Inl n)
    with assms(2) show ?thesis by (simp add: freq_def sum_list_replicate)
  next
    case (Inr fr)
    with assms(2) have "fr \<noteq> []" "\<forall>w \<in> set fr. 0 < w" by simp_all
    then have "0 < sum_list fr" by (induction fr) (auto intro: add_pos_nonneg sum_list_nonneg less_imp_le)
    with Inr show ?thesis by (simp add: freq_def)
  qed
  from partitions_weights [OF len assms(1) pos, of inputs rng sz]
  obtain cs buckets rng' where r:
    "draw_partitions max_args inputs (Inr freq) rng sz = Inr (Some (Return buckets rng'))"
    "length cs = length inputs" "\<forall>c \<in> set cs. c < length freq"
    "buckets = map (assigned inputs cs) [0..<length freq]"
    by blast
  have lb: "length buckets = length freq" using r(4) by simp
  have "mset (concat buckets) = mset inputs"
    using mset_assigned [OF r(2) r(3)] r(4) by simp
  moreover have "\<forall>b \<in> set buckets. subseq b inputs"
    using subseq_assigned [OF r(2)] r(4) by auto
  ultimately show ?thesis
    using r dp n lb by (intro exI [of _ cs] exI [of _ buckets] exI [of _ rng']) simp
qed

theorem partitions_integrity_witness:
  "(\<exists>buckets rng'. draw_partitions 65535 [1, 2, 3, 4, 5 :: nat] (Inl 3) (makeRng (Some 42) 0) None
        = Inr (Some (Return buckets rng')) \<and>
      length buckets = 3 \<and> mset (concat buckets) = mset [1, 2, 3, 4, 5]) \<and>
   (\<exists>buckets rng'. draw_partitions 65535 [1, 2, 3, 4, 5 :: nat] (Inr [1, 2]) (makeRng (Some 42) 0) None
        = Inr (Some (Return buckets rng')) \<and>
      length buckets = 2 \<and> mset (concat buckets) = mset [1, 2, 3, 4, 5])"
proof (rule conjI)
  from partitions_integrity [of 65535 "Inl 3" "[1, 2, 3, 4, 5 :: nat]" "makeRng (Some 42) 0" None]
  show "\<exists>buckets rng'. draw_partitions 65535 [1, 2, 3, 4, 5 :: nat] (Inl 3) (makeRng (Some 42) 0) None
        = Inr (Some (Return buckets rng')) \<and>
      length buckets = 3 \<and> mset (concat buckets) = mset [1, 2, 3, 4, 5]"
    by force
next
  from partitions_integrity [of 65535 "Inr [1, 2]" "[1, 2, 3, 4, 5 :: nat]" "makeRng (Some 42) 0" None]
  show "\<exists>buckets rng'. draw_partitions 65535 [1, 2, 3, 4, 5 :: nat] (Inr [1, 2]) (makeRng (Some 42) 0) None
        = Inr (Some (Return buckets rng')) \<and>
      length buckets = 2 \<and> mset (concat buckets) = mset [1, 2, 3, 4, 5]"
    by force
qed

text \<open>
  Claim C8 (shrink candidates are strictly smaller), at the inputs where the code
  breaks it: \<^verbatim>\<open>smaller.nat(0)\<close> is \<open>[0]\<close> and \<^verbatim>\<open>smaller.string("")\<close> is \<open>[""]\<close>, the input
  itself, and \<^verbatim>\<open>smaller.nestring\<close> of a one-character string is \<open>[""]\<close>, a candidate of
  length \<open>0\<close>. Each \<^verbatim>\<open>do ... while\<close> loop pushes one candidate before it tests.
\<close>

theorem smaller_boundary:
  "smaller_nat 0 = [0] \<and> smaller_string [] = [[]] \<and> smaller_nestring [c] = [[]]"
  by (simp add: smaller_nat_def smaller_string_def smaller_nestring_def toInt32_id
      nat_loop.simps string_loop.simps nestring_loop.simps substr0_def)

text \<open>
  Claim C9 (numeric shrink). \<^verbatim>\<open>smaller.nat(8)\<close> is \<open>[4, 2, 1, 0]\<close>.
\<close>

theorem smaller_nat_8: "smaller_nat 8 = [4, 2, 1, 0]"
proof -
  have "toInt32 8 = 8"
    by (simp add: toInt32_id)
  then show ?thesis
    unfolding smaller_nat_def
    apply (subst nat_loop.simps, simp)
    apply (subst nat_loop.simps, simp)
    apply (subst nat_loop.simps, simp)
    apply (subst nat_loop.simps, simp)
    done
qed

text \<open>
  Claim C10 (frame). A draw of \<^verbatim>\<open>shuffle(xs)\<close> returns a reference other than that of the
  caller's array, and leaves the caller's array, like every array allocated before the
  call, as it was: the swaps are made in the fresh copy.
\<close>

theorem shuffle_frame:
  assumes "arr < next_ref h"
  shows "\<exists>output h' rng'. shuffle arr h rng sz = Some (Return (output, h') rng') \<and>
     output \<noteq> arr \<and> cells h' arr = cells h arr \<and> (\<forall>a < next_ref h. cells h' a = cells h a)"
  using shuffle_result [of arr h rng sz] assms by (metis less_irrefl_nat)

theorem shuffle_frame_witness:
  "(0 :: nat) < next_ref \<lparr>cells = (\<lambda>a. []) (0 := [1, 2, 3 :: nat]), next_ref = 1\<rparr> \<and>
   (\<exists>output h' rng'.
      shuffle 0 \<lparr>cells = (\<lambda>a. []) (0 := [1, 2, 3 :: nat]), next_ref = 1\<rparr> (makeRng (Some 42) 0) None
        = Some (Return (output, h') rng') \<and>
      output \<noteq> 0 \<and> cells h' 0 = [1, 2, 3])"
  using shuffle_frame [of 0 "\<lparr>cells = (\<lambda>a. []) (0 := [1, 2, 3 :: nat]), next_ref = 1\<rparr>"
      "makeRng (Some 42) 0" None]
  by simp

section \<open>Further properties\<close>

text \<open>
  What the generators of arrays do at the sizes from \<open>1\<close> to \<open>2\<^sup>2\<^sup>0 - 1\<close> (the default
  size \<open>100\<close> included), for an element generator that always returns: \<^verbatim>\<open>array\<close>
  returns an array of fewer than \<open>logsize\<close> elements, \<^verbatim>\<open>nearray\<close> one of at least \<open>1\<close>
  and at most \<open>logsize\<close> elements, and every slot is filled.
\<close>

theorem array_lengths:
  assumes total: "\<And>r s. \<exists>a r'. gen r s = Some (Return a r')"
    and n: "n = (case sz of None \<Rightarrow> 100 | Some s \<Rightarrow> s)" and "1 \<le> n"
    and l: "logsize n = Some l"
  shows "(\<exists>ys rng'. array gen rng sz = Some (Return ys rng') \<and>
            int (length ys) < l \<and> None \<notin> set ys) \<and>
         (\<exists>ys rng'. nearray gen rng sz = Some (Return ys rng') \<and>
            1 \<le> length ys \<and> int (length ys) \<le> l \<and> None \<notin> set ys)"
proof (rule conjI)
  from l have small: "int n < 2 ^ 20" and l_def: "l = log2_nearest n"
    by (simp_all add: logsize_def split: if_splits)
  have l1: "1 \<le> l" unfolding l_def using assms(3) by (rule log2_nearest_pos)
  have "int n < 2 ^ 53" using small by simp
  then have "n < 2 ^ 53" by (metis of_nat_less_iff of_nat_numeral of_nat_power)
  then have l2: "l \<le> 53" unfolding l_def by (rule log2_nearest_le)
  {
    from l1 have "0 < l" by simp
    from interval_draw [OF this, of rng None]
    obtain k where k: "interval 0 (l) rng None = Some (Return (Num k) (snd (randomInt32 rng)))"
      "0 \<le> k" "k < l" by blast
    have na: "new_Array (Num k) = (Inr (replicate (nat k) None) :: error + 'a option list)"
      using k l2 by (simp add: new_Array_def)
    have "\<exists>ys rng'. fill gen n (Num k) (replicate (nat k) None) (snd (randomInt32 rng))
        = Some (Return ys rng') \<and> length ys = nat k \<and> None \<notin> set ys"
    proof (rule fill_total)
      show "\<And>r s. \<exists>a r'. gen r s = Some (Return a r')" by (rule total)
      show "0 \<le> k" using k(2) .
      show "length (replicate (nat k) None) = nat k" by simp
    qed
    then obtain ys rng' where ys: "fill gen n (Num k) (replicate (nat k) None) (snd (randomInt32 rng))
        = Some (Return ys rng')" "length ys = nat k" "None \<notin> set ys" by auto
    have "array gen rng sz = Some (Return ys rng')"
      using k(1) na ys(1) n l by (simp add: array_def andThen_def)
    moreover have "int (length ys) < l" using ys(2) k by simp
    ultimately show "\<exists>ys rng'. array gen rng sz = Some (Return ys rng') \<and>
            int (length ys) < l \<and> None \<notin> set ys" using ys(3) by blast
  }
  {
    from l1 have "1 < l + 1" by simp
    from interval_draw [OF this, of rng None]
    obtain k where k: "interval 1 (l + 1) rng None = Some (Return (Num k) (snd (randomInt32 rng)))"
      "1 \<le> k" "k < l + 1" by blast
    then have k0: "0 \<le> k" by simp
    have na: "new_Array (Num k) = (Inr (replicate (nat k) None) :: error + 'a option list)"
      using k l2 by (simp add: new_Array_def)
    have "\<exists>ys rng'. fill gen n (Num k) (replicate (nat k) None) (snd (randomInt32 rng))
        = Some (Return ys rng') \<and> length ys = nat k \<and> None \<notin> set ys"
    proof (rule fill_total)
      show "\<And>r s. \<exists>a r'. gen r s = Some (Return a r')" by (rule total)
      show "0 \<le> k" using k0 .
      show "length (replicate (nat k) None) = nat k" by simp
    qed
    then obtain ys rng' where ys: "fill gen n (Num k) (replicate (nat k) None) (snd (randomInt32 rng))
        = Some (Return ys rng')" "length ys = nat k" "None \<notin> set ys" by auto
    have "nearray gen rng sz = Some (Return ys rng')"
      using k(1) na ys(1) n l by (simp add: nearray_def andThen_def)
    moreover have "1 \<le> length ys" "int (length ys) \<le> l" using ys(2) k by simp_all
    ultimately show "\<exists>ys rng'. nearray gen rng sz = Some (Return ys rng') \<and>
            1 \<le> length ys \<and> int (length ys) \<le> l \<and> None \<notin> set ys" using ys(3) by blast
  }
qed

text \<open>
  The shrink strategies away from their smallest inputs. For \<open>0 < x < 2\<^sup>3\<^sup>1\<close> the
  candidates of \<^verbatim>\<open>smaller.nat\<close> are non-negative, below \<open>x\<close>, strictly decreasing and end
  with \<open>0\<close>. For a non-empty string the candidates of \<^verbatim>\<open>smaller.string\<close> are prefixes
  shorter than the string, of strictly decreasing length, ending with the empty string;
  for a string of two or more characters those of \<^verbatim>\<open>smaller.nestring\<close> are prefixes of
  at least one character, ending with one of length \<open>1\<close>.
\<close>

theorem smaller_nat_positive:
  assumes "0 < x" and "x < 2 ^ 31"
  shows "smaller_nat x \<noteq> [] \<and> (\<forall>c \<in> set (smaller_nat x). 0 \<le> c \<and> c < x) \<and>
     sorted_wrt (>) (smaller_nat x) \<and> last (smaller_nat x) = 0"
proof -
  have "toInt32 x = x" using assms by (simp add: toInt32_id)
  with nat_loop_spec [OF assms(1), of "[]"] show ?thesis by (auto simp: smaller_nat_def)
qed

theorem smaller_string_nonempty:
  assumes "x \<noteq> []" and "length x < 2 ^ 31"
  shows "smaller_string x \<noteq> [] \<and>
     (\<forall>c \<in> set (smaller_string x). prefix c x \<and> length c < length x) \<and>
     sorted_wrt (\<lambda>a b. length b < length a) (smaller_string x) \<and> last (smaller_string x) = []"
proof -
  have "0 < int (length x)" "int (length x) < 2 ^ 31" using assms by simp_all
  from string_loop_spec [OF this order_refl, of "[]"] show ?thesis
    by (auto simp: smaller_string_def)
qed

theorem smaller_nestring_long:
  assumes "2 \<le> length x" and "length x < 2 ^ 31"
  shows "smaller_nestring x \<noteq> [] \<and>
     (\<forall>c \<in> set (smaller_nestring x). prefix c x \<and> 1 \<le> length c \<and> length c < length x) \<and>
     sorted_wrt (\<lambda>a b. length b < length a) (smaller_nestring x) \<and>
     length (last (smaller_nestring x)) = 1"
proof -
  have "1 < int (length x)" "int (length x) < 2 ^ 31" using assms by simp_all
  from nestring_loop_spec [OF this order_refl, of "[]"] show ?thesis
    by (auto simp: smaller_nestring_def)
qed

text \<open>
  \<^verbatim>\<open>smaller.string("abcd")\<close> is \<open>["ab", "a", ""]\<close>; \<^verbatim>\<open>frequency([[1, A], [0, B]])\<close> always
  draws from \<open>A\<close>; \<open>logsize\<close> is monotonic, \<open>0\<close> at \<open>0\<close> and \<open>7\<close> at the default size.
\<close>

lemma smaller_string_abcd: "smaller_string ''abcd'' = [''ab'', ''a'', '''']"
  unfolding smaller_string_def
  apply (subst string_loop.simps, simp add: toInt32_id substr0_def)
  apply (subst string_loop.simps, simp add: toInt32_id substr0_def)
  apply (subst string_loop.simps, simp add: toInt32_id substr0_def)
  done

lemma frequency_one_zero:
  "frequency [(1, A), (0, B)] rng sz
     = A (snd (randomInt32 rng)) (Some (case sz of None \<Rightarrow> 100 | Some s \<Rightarrow> s))"
proof -
  have "(0::int) < 1" by simp
  from interval_draw [OF this, of rng None]
  have "interval 0 1 rng None = Some (Return (Num 0) (snd (randomInt32 rng)))" by auto
  then show ?thesis by (simp add: frequency_def andThen_def)
qed

lemma logsize_values:
  "logsize 0 = Some 0 \<and> logsize 100 = Some 7 \<and> (m \<le> n \<longrightarrow> log2_nearest m \<le> log2_nearest n)"
  using log2_nearest_mono [of m n] by (simp add: logsize_0 logsize_100)

text \<open>
  Instances: the arrays of the constant generator at the default size, the shrink
  candidates of \<open>100\<close> and of two strings, and \<^verbatim>\<open>shuffle\<close> of the empty and of a
  one-element array, which makes no draw and returns a copy.
\<close>

lemma array_lengths_default:
  "(\<exists>ys rng'. array (of_gen (0 :: nat)) (makeRng (Some 42) 0) None = Some (Return ys rng') \<and>
      int (length ys) < 7 \<and> None \<notin> set ys) \<and>
   (\<exists>ys rng'. nearray (of_gen (0 :: nat)) (makeRng (Some 42) 0) None = Some (Return ys rng') \<and>
      1 \<le> length ys \<and> int (length ys) \<le> 7 \<and> None \<notin> set ys)"
  using array_lengths [where gen = "of_gen (0 :: nat)" and n = 100 and sz = None and l = 7
      and rng = "makeRng (Some 42) 0"]
  by (simp add: of_gen_def logsize_100)

lemma smaller_instances:
  "(\<forall>c \<in> set (smaller_nat 100). 0 \<le> c \<and> c < 100) \<and>
   (\<forall>c \<in> set (smaller_string ''abcd''). prefix c ''abcd'' \<and> length c < length ''abcd'') \<and>
   (\<forall>c \<in> set (smaller_nestring ''abcd''). prefix c ''abcd'' \<and> 1 \<le> length c \<and> length c < length ''abcd'')"
  using smaller_nat_positive [of 100] smaller_string_nonempty [of "''abcd''"]
    smaller_nestring_long [of "''abcd''"]
  by simp

lemma shuffle_short:
  assumes "length (cells h arr) \<le> 1"
  shows "shuffle arr h rng sz = Some (Return (next_ref h, snd (slice arr h)) rng) \<and>
     cells (snd (slice arr h)) (next_ref h) = cells h arr"
  using assms by (simp add: shuffle_def slice_def andThen_def)

subsection \<open>Traces\<close>

text \<open>
  The model run on seed \<open>42\<close>: the state after the warm-up, the first draw, an interval
  on either branch, and one draw of \<^verbatim>\<open>elements\<close>, \<^verbatim>\<open>array\<close> (of the default size),
  \<^verbatim>\<open>shuffle\<close> and \<^verbatim>\<open>partitions\<close>.
\<close>

declare log2_nearest_bits [code]

lemma makeRng_42:
  "makeRng (Some 42) 0 = Int32Array 3009285267 2463494095 1547092013 267043580"
  by code_simp

lemma first_draw_42:
  "randomInt32 (makeRng (Some 42) 0)
     = (1230419127, Int32Array 311383970 1814135593 1186078737 1230419127)"
  by code_simp

lemma interval_3_10:
  "interval 3 10 (makeRng (Some 42) 0) None
     = Some (Return (Num 5) (Int32Array 311383970 1814135593 1186078737 1230419127))"
  by code_simp

lemma interval_float:
  "interval 0 (2 ^ 40) (makeRng (Some 42) 0) None
     = Some (Return (Num 864743110400) (Int32Array 311383970 1814135593 1186078737 1230419127))"
  by code_simp

lemma elements_123:
  "elements [1, 2, 3 :: nat] (makeRng (Some 42) 0) None
     = Some (Return (Some 3) (Int32Array 311383970 1814135593 1186078737 1230419127))"
  by code_simp

lemma array_100:
  "array int_gen (makeRng (Some 42) 0) None
     = Some (Return [Some (- 214869546), Some 2014035305]
         (Int32Array 2424894914 62282262 3669238141 2014035305))"
  by code_simp

lemma shuffle_12345:
  "(case shuffle 0 \<lparr>cells = (\<lambda>a. []) (0 := [1, 2, 3, 4, 5 :: nat]), next_ref = 1\<rparr>
          (makeRng (Some 42) 0) None of
      Some (Return (out, h') rng') \<Rightarrow> Some (out, cells h' out, cells h' 0, rng')
    | _ \<Rightarrow> None)
   = Some (1, [1, 4, 2, 3, 5], [1, 2, 3, 4, 5],
       Int32Array 1095626622 1388306150 1484193883 565785200)"
  by code_simp

lemma partitions_3:
  "draw_partitions 65535 [1, 2, 3, 4, 5 :: nat] (Inl 3) (makeRng (Some 42) 0) None
     = Inr (Some (Return [[2, 5], [4], [1, 3]]
         (Int32Array 1376349704 2049979083 812720887 1623285391)))"
  by code_simp

text \<open>
  A generator that is not built from the library alone:
  \<^verbatim>\<open>new Generator(() => int.generate())\<close> calls \<^verbatim>\<open>generate\<close> without a state, which
  reads \<^verbatim>\<open>Math.random\<close>. Its runs from the same seed differ when the source differs.
\<close>

lemma fallback_reads_ambient:
  "run_w (\<lambda>rng sz w. generate_w int_w None sz w) 42 [None] (\<lambda>i. 0)
     \<noteq> run_w (\<lambda>rng sz w. generate_w int_w None sz w) 42 [None] (\<lambda>i. 1 / 2)"
  by code_simp

text \<open>
  \<^verbatim>\<open>int.suchThat(x => x < 0)\<close> on the same seed: the first draw is positive, the second
  is returned.
\<close>

lemma suchThat_negative:
  "suchThat int_gen (\<lambda>x. x < 0) (makeRng (Some 42) 0) None
     = Some (Return (- 214869546) (Int32Array 738397773 2416497864 277151808 4080097750))"
proof -
  have d1: "int_gen (makeRng (Some 42) 0) None
      = Some (Return 1230419127 (Int32Array 311383970 1814135593 1186078737 1230419127))"
    by code_simp
  have d2: "int_gen (Int32Array 311383970 1814135593 1186078737 1230419127) None
      = Some (Return (- 214869546) (Int32Array 738397773 2416497864 277151808 4080097750))"
    by code_simp
  show ?thesis
    by (subst suchThat.simps, simp add: d1, subst suchThat.simps, simp add: d2)
qed

end
